theory Spec2Isabelle
  imports Complex_Main "HOL-Library.Word"
begin

section \<open>isp-monitor: ICMP prober and statistics aggregator\<close>

text \<open>
  The repository holds three generations of \<^verbatim>\<open>monitor.go\<close>. The current one sends with
  \<^verbatim>\<open>sendPing\<close>, receives with \<^verbatim>\<open>receivePing\<close> and keeps the sequence counter in the
  global \<^verbatim>\<open>seq\<close>; the older one does everything inside \<^verbatim>\<open>main\<close>, in the labelled loops
  \<^verbatim>\<open>pingLoop\<close> and \<^verbatim>\<open>readLoop\<close>. Both run the same aggregator goroutine, which differs in
  one guard of the flush branch. (A further generation delegates to a ping library and
  has no code of its own for the properties below.)

  Conventions of the embedding.
  \<^item> Go \<^verbatim>\<open>int\<close> (the counters, \<^verbatim>\<open>seq\<close>) is HOL \<open>int\<close>; \<^verbatim>\<open>seq\<close> is shown to stay in
    \<open>0..65536\<close>, and a counter grows by one per consumed event.
  \<^item> \<^verbatim>\<open>int64\<close> and \<^verbatim>\<open>time.Duration\<close> are \<open>int\<close> (nanoseconds) with the two's complement
    wrap-around written out (\<open>int64\<close>); \<^verbatim>\<open>/\<close> truncates towards zero (\<open>quo\<close>).
  \<^item> \<^verbatim>\<open>float64\<close> is a datatype with explicit NaN and infinities; a finite value is its
    exact rational, so rounding is not modelled.
  \<^item> \<^verbatim>\<open>time.Time\<close> is an \<open>int\<close>, the reading of the monotonic clock in nanoseconds.
\<close>

subsection \<open>Numbers\<close>

definition int64 :: "int \<Rightarrow> int" where
  "int64 x = (x + 2 ^ 63) mod 2 ^ 64 - 2 ^ 63"

definition quo :: "int \<Rightarrow> int \<Rightarrow> int" where
  "quo a b = sgn a * sgn b * (\<bar>a\<bar> div \<bar>b\<bar>)"

definition MaxInt64 :: int where
  "MaxInt64 = 2 ^ 63 - 1"

definition Microsecond :: int where
  "Microsecond = 1000"

definition Millisecond :: int where
  "Millisecond = 1000000"

datatype float64 = Finite rat | PosInf | NegInf | NaN

definition float64_of :: "int \<Rightarrow> float64" where
  "float64_of i = Finite (of_int i)"

fun fdiv :: "float64 \<Rightarrow> float64 \<Rightarrow> float64" where
  "fdiv (Finite a) (Finite b) =
     (if b = 0 then (if a = 0 then NaN else if 0 < a then PosInf else NegInf)
      else Finite (a / b))"
| "fdiv (Finite a) PosInf = Finite 0"
| "fdiv (Finite a) NegInf = Finite 0"
| "fdiv PosInf (Finite b) = (if b < 0 then NegInf else PosInf)"
| "fdiv NegInf (Finite b) = (if b < 0 then PosInf else NegInf)"
| "fdiv _ _ = NaN"

fun fadd :: "float64 \<Rightarrow> float64 \<Rightarrow> float64" where
  "fadd (Finite a) (Finite b) = Finite (a + b)"
| "fadd NaN _ = NaN"
| "fadd _ NaN = NaN"
| "fadd PosInf NegInf = NaN"
| "fadd NegInf PosInf = NaN"
| "fadd PosInf _ = PosInf"
| "fadd _ PosInf = PosInf"
| "fadd NegInf _ = NegInf"
| "fadd _ NegInf = NegInf"

subsection \<open>The aggregator goroutine (current generation)\<close>

text \<open>
  \<^verbatim>\<open>packetUpdate\<close> is the event the prober puts on \<^verbatim>\<open>updateChan\<close>. The goroutine's local
  variables are the record \<open>window\<close>; the six Prometheus gauges it sets on a tick are the
  record \<open>gauges\<close>.
\<close>

record packetUpdate =
  received :: bool
  seqNumber :: int
  rttStart :: int
  rttStop :: int

record window =
  droppedPacketsCounter :: int
  totalPacketsCounter :: int
  rttMin :: int
  rttAvg :: int
  rttAvgCnt :: int
  rttMax :: int

record gauges =
  droppedPackets :: float64
  totalPackets :: float64
  packetLossPercentage :: float64
  roundTripMin :: float64
  roundTripAvg :: float64
  roundTripMax :: float64

text \<open>The values the locals are declared with, and reset to after every tick.\<close>

definition startWindow :: window where
  "startWindow = \<lparr> droppedPacketsCounter = 0, totalPacketsCounter = 0, rttMin = MaxInt64,
     rttAvg = 0, rttAvgCnt = 1, rttMax = 0 \<rparr>"

text \<open>\<^verbatim>\<open>rttStop.Sub(rttStart)\<close>.\<close>

definition Sub :: "int \<Rightarrow> int \<Rightarrow> int" where
  "Sub t u = (if t - u > MaxInt64 then MaxInt64
              else if t - u < - MaxInt64 - 1 then - MaxInt64 - 1 else t - u)"

text \<open>The branch \<^verbatim>\<open>case update := <-updateChan\<close>.\<close>

definition onUpdate :: "window \<Rightarrow> packetUpdate \<Rightarrow> window" where
  "onUpdate w update =
     (let w = w\<lparr> totalPacketsCounter := totalPacketsCounter w + 1 \<rparr> in
      if received update then
        (let rtt = Sub (rttStop update) (rttStart update);
             w = (if rtt < rttMin w then w\<lparr> rttMin := rtt \<rparr> else w);
             w = (if rtt > rttMax w then w\<lparr> rttMax := rtt \<rparr> else w)
         in if rttAvg w = 0 then w\<lparr> rttAvg := rtt \<rparr>
            else w\<lparr> rttAvg := int64 (quo (int64 (int64 (rttAvg w * rttAvgCnt w) + rtt))
                                          (int64 (rttAvgCnt w + 1))),
                     rttAvgCnt := int64 (rttAvgCnt w + 1) \<rparr>)
      else w\<lparr> droppedPacketsCounter := droppedPacketsCounter w + 1 \<rparr>)"

text \<open>
  The conversion the tick branch applies to each of the three durations:
  \<^verbatim>\<open>fl = float64(d/time.Microsecond) / 1000; fl += float64(d/time.Millisecond) / 1000\<close>.
\<close>

definition msecFl :: "int \<Rightarrow> float64" where
  "msecFl d = fadd (fdiv (float64_of (quo d Microsecond)) (Finite 1000))
                   (fdiv (float64_of (quo d Millisecond)) (Finite 1000))"

text \<open>The branch \<^verbatim>\<open>case <-ticker.C\<close>: the gauges set, and the window after the reset.\<close>

definition onTick :: "window \<Rightarrow> gauges \<times> window" where
  "onTick w =
     (let w = (if rttMin w = MaxInt64 then w\<lparr> rttMin := 0 \<rparr> else w);
          rttMinFl = msecFl (rttMin w);
          rttAvgFl = msecFl (rttAvg w);
          rttMaxFl = msecFl (rttMax w)
      in (\<lparr> droppedPackets = float64_of (droppedPacketsCounter w),
            totalPackets = float64_of (totalPacketsCounter w),
            packetLossPercentage =
              fdiv (float64_of (droppedPacketsCounter w)) (float64_of (totalPacketsCounter w)),
            roundTripMin = rttMinFl,
            roundTripAvg = rttAvgFl,
            roundTripMax = rttMaxFl \<rparr>,
          w\<lparr> droppedPacketsCounter := 0, totalPacketsCounter := 0, rttMin := MaxInt64,
             rttAvg := 0, rttAvgCnt := 1, rttMax := 0 \<rparr>))"

text \<open>
  The \<^verbatim>\<open>for { select { ... } }\<close> loop, run on the sequence of choices the \<^verbatim>\<open>select\<close> makes:
  an event taken from the channel, or a tick. It returns the gauge settings of the ticks,
  oldest first, and the window it is left with.
\<close>

datatype selected = Update packetUpdate | Tick

fun aggregator :: "window \<Rightarrow> selected list \<Rightarrow> gauges list \<times> window" where
  "aggregator w [] = ([], w)"
| "aggregator w (Update u # rest) = aggregator (onUpdate w u) rest"
| "aggregator w (Tick # rest) =
     (let (g, w') = onTick w; (gs, w'') = aggregator w' rest in (g # gs, w''))"

text \<open>
  The tick branch of the older generation: the same, without the guard that turns the
  start value of \<^verbatim>\<open>rttMin\<close> into 0.
\<close>

definition onTick_older :: "window \<Rightarrow> gauges \<times> window" where
  "onTick_older w =
     (let rttMinFl = msecFl (rttMin w);
          rttAvgFl = msecFl (rttAvg w);
          rttMaxFl = msecFl (rttMax w)
      in (\<lparr> droppedPackets = float64_of (droppedPacketsCounter w),
            totalPackets = float64_of (totalPacketsCounter w),
            packetLossPercentage =
              fdiv (float64_of (droppedPacketsCounter w)) (float64_of (totalPacketsCounter w)),
            roundTripMin = rttMinFl,
            roundTripAvg = rttAvgFl,
            roundTripMax = rttMaxFl \<rparr>,
          w\<lparr> droppedPacketsCounter := 0, totalPacketsCounter := 0, rttMin := MaxInt64,
             rttAvg := 0, rttAvgCnt := 1, rttMax := 0 \<rparr>))"

subsection \<open>The socket and the ICMP library, as the prober uses them\<close>

text \<open>
  The packages \<^verbatim>\<open>icmp\<close>, \<^verbatim>\<open>net\<close> and \<^verbatim>\<open>context\<close> are not part of the repository. What the
  prober observes of them is modelled as follows.
  \<^item> A context is its deadline, if it has one.
  \<^item> A call that can fail takes its error from the environment of the call
    (\<open>sendEnv\<close>, \<open>recvEnv\<close>).
  \<^item> The socket keeps the datagrams it has received and the program has not read yet
    (\<open>pending\<close>), oldest first. \<open>arrivals\<close> are the datagrams that reach the socket
    before the read deadline of the call expires. \<^verbatim>\<open>ReadFrom\<close> hands out the oldest one, or
    fails with \<^verbatim>\<open>os.ErrDeadlineExceeded\<close> when there is none.
  \<^item> \<^verbatim>\<open>icmp.ParseMessage\<close> is a parameter of every function that calls it.
  \<^item> A request that \<^verbatim>\<open>WriteTo\<close> accepted is recorded, as the message that was marshalled and
    its destination, in \<open>wire\<close>.
\<close>

type_synonym byte = "8 word"

datatype error = ErrNoDeadline | ErrDeadlineExceeded | DeadlineExceeded | ErrOther

record Echo =
  Seq :: int

record Message =
  Type :: int
  Code :: int
  Body :: Echo

definition ICMPTypeEcho :: int where
  "ICMPTypeEcho = 8"

definition ICMPTypeEchoReply :: int where
  "ICMPTypeEchoReply = 0"

record datagram =
  payload :: "byte list"
  source :: string

record packetConn =
  writeDeadline :: "int option"
  readDeadline :: "int option"
  pending :: "datagram list"

record sendEnv =
  marshalErr :: "error option"
  setWriteDeadlineErr :: "error option"
  writeToErr :: "error option"

record recvEnv =
  setReadDeadlineErr :: "error option"
  readFromErr :: "error option"
  arrivals :: "datagram list"

text \<open>\<^verbatim>\<open>icmp.ListenPacket("udp4", "0.0.0.0")\<close>, when it succeeds.\<close>

definition ListenPacket :: packetConn where
  "ListenPacket = \<lparr> writeDeadline = None, readDeadline = None, pending = [] \<rparr>"

text \<open>
  \<^verbatim>\<open>con.ReadFrom(buf)\<close>: the number of bytes stored and the sender's address, or an error;
  the socket and the buffer afterwards.
\<close>

definition ReadFrom ::
  "recvEnv \<Rightarrow> packetConn \<Rightarrow> byte list \<Rightarrow> (error + nat \<times> string) \<times> packetConn \<times> byte list" where
  "ReadFrom env c b =
     (let c = c\<lparr> pending := pending c @ arrivals env \<rparr> in
      case readFromErr env of
        Some err \<Rightarrow> (Inl err, c, b)
      | None \<Rightarrow>
          (case pending c of
             [] \<Rightarrow> (Inl ErrDeadlineExceeded, c, b)
           | dg # rest \<Rightarrow>
               (let n = min (length (payload dg)) (length b)
                in (Inr (n, source dg), c\<lparr> pending := rest \<rparr>,
                    take n (payload dg) @ drop n b))))"

text \<open>\<^verbatim>\<open>for pos := 0; pos < len; pos++ { buf[pos] = 0 }\<close>\<close>

definition flushBuf :: "byte list \<Rightarrow> nat \<Rightarrow> byte list" where
  "flushBuf buf len = fold (\<lambda>pos buf. buf[pos := 0]) [0..<len] buf"

text \<open>\<^verbatim>\<open>(int(buf[6]) << 8) | int(buf[7])\<close>\<close>

definition rxSeqNumOf :: "byte list \<Rightarrow> int" where
  "rxSeqNumOf b = or (push_bit 8 (uint (b ! 6))) (uint (b ! 7))"

subsection \<open>The prober (current generation)\<close>

text \<open>
  \<open>world\<close> is what \<^verbatim>\<open>sendPing\<close>, \<^verbatim>\<open>receivePing\<close> and the loop of \<^verbatim>\<open>main\<close> read and write: the
  global \<^verbatim>\<open>seq\<close>, the locals \<^verbatim>\<open>con\<close> and \<^verbatim>\<open>buf\<close> of \<^verbatim>\<open>main\<close>, the events put on
  \<^verbatim>\<open>updateChan\<close> so far (oldest first) and the requests written to the network.

  A call returns, or ends the process with \<^verbatim>\<open>os.Exit(1)\<close>, or panics on an index out of
  range. \<^verbatim>\<open>os.Exit\<close> does not run deferred functions.
\<close>

record world =
  seq :: int
  con :: packetConn
  buf :: "byte list"
  updateChan :: "packetUpdate list"
  wire :: "(Message \<times> string) list"

datatype 'r outcome = Return 'r world | Exit world | Panic world

text \<open>The deferred \<^verbatim>\<open>func() {seq++}()\<close>.\<close>

definition deferred :: "world \<Rightarrow> world" where
  "deferred s = s\<lparr> seq := seq s + 1 \<rparr>"

definition sendPing :: "sendEnv \<Rightarrow> int option \<Rightarrow> string \<Rightarrow> world \<Rightarrow> error option outcome" where
  "sendPing env context target s =
     (case context of
        None \<Rightarrow> Return (Some ErrNoDeadline) s
      | Some deadline \<Rightarrow>
          (let s = (if seq s = 65536 then s\<lparr> seq := 0 \<rparr> else s);
               msg = \<lparr> Type = ICMPTypeEcho, Code = 0, Body = \<lparr> Seq = seq s \<rparr> \<rparr>
           in case marshalErr env of
                Some err \<Rightarrow> Exit s
              | None \<Rightarrow>
                  (case setWriteDeadlineErr env of
                     Some err \<Rightarrow> Return (Some err) (deferred s)
                   | None \<Rightarrow>
                       (let s = s\<lparr> con := (con s)\<lparr> writeDeadline := Some deadline \<rparr> \<rparr>
                        in case writeToErr env of
                             Some err \<Rightarrow> Return (Some err) (deferred s)
                           | None \<Rightarrow>
                               Return None
                                 (deferred (s\<lparr> wire := wire s @ [(msg, target)] \<rparr>))))))"

definition receivePing ::
  "(byte list \<Rightarrow> error + Message) \<Rightarrow> recvEnv \<Rightarrow> int option \<Rightarrow> string \<Rightarrow> world
     \<Rightarrow> (bool \<times> error option) outcome" where
  "receivePing ParseMessage env context target s =
     (case context of
        None \<Rightarrow> Return (False, Some ErrNoDeadline) s
      | Some deadline \<Rightarrow>
          (case setReadDeadlineErr env of
             Some err \<Rightarrow> Return (False, Some err) s
           | None \<Rightarrow>
               (case ReadFrom env ((con s)\<lparr> readDeadline := Some deadline \<rparr>) (buf s) of
                  (Inl err, c, b) \<Rightarrow> Return (False, Some err) (s\<lparr> con := c, buf := b \<rparr>)
                | (Inr (numBytesReceived, addr), c, b) \<Rightarrow>
                    if length b < 8 then Panic (s\<lparr> con := c, buf := b \<rparr>)
                    else
                      (let receivedMessage = ParseMessage b;
                           rxSeqNum = rxSeqNumOf b;
                           s = s\<lparr> con := c, buf := flushBuf b numBytesReceived \<rparr>
                       in if (case receivedMessage of
                                Inl receivedMessageError \<Rightarrow> False
                              | Inr m \<Rightarrow> Type m = ICMPTypeEchoReply) \<and>
                             addr = target \<and>
                             seq s - 1 = rxSeqNum
                          then Return (True, None) s
                          else Return (False, None) s))))"

text \<open>
  One iteration of the \<^verbatim>\<open>for\<close> loop of \<^verbatim>\<open>main\<close>. The environment of an iteration gives the
  three readings of the clock and the results of the library calls.
\<close>

record cycleEnv =
  ctxtNow :: int
  start :: int
  stop :: int
  sending :: sendEnv
  listenErr :: "error option"
  receiving :: recvEnv

definition isDeadline :: "error \<Rightarrow> bool" where
  "isDeadline err = (err = ErrDeadlineExceeded \<or> err = DeadlineExceeded)"

definition cycle ::
  "(byte list \<Rightarrow> error + Message) \<Rightarrow> int \<Rightarrow> string \<Rightarrow> cycleEnv \<Rightarrow> world \<Rightarrow> unit outcome" where
  "cycle ParseMessage icmpInterval pingHost env s =
     (let ctxt = Some (ctxtNow env + icmpInterval)
      in case sendPing (sending env) ctxt pingHost s of
           Exit s \<Rightarrow> Exit s
         | Panic s \<Rightarrow> Panic s
         | Return err s \<Rightarrow>
             (case (case err of
                      None \<Rightarrow> Some s
                    | Some e \<Rightarrow>
                        if isDeadline e
                        then (case listenErr env of
                                None \<Rightarrow> Some (s\<lparr> con := ListenPacket \<rparr>)
                              | Some e' \<Rightarrow> None)
                        else Some s) of
                None \<Rightarrow> Exit s
              | Some s \<Rightarrow>
                  (case receivePing ParseMessage (receiving env) ctxt pingHost s of
                     Exit s \<Rightarrow> Exit s
                   | Panic s \<Rightarrow> Panic s
                   | Return (received', err') s \<Rightarrow>
                       Return ()
                         (s\<lparr> updateChan := updateChan s @
                               [\<lparr> received = received', seqNumber = seq s,
                                  rttStart = start env, rttStop = stop env \<rparr>] \<rparr>))))"

text \<open>
  The loop of \<^verbatim>\<open>main\<close>, run for as many iterations as there are environments: it returns
  when all of them completed.
\<close>

fun mainLoop ::
  "(byte list \<Rightarrow> error + Message) \<Rightarrow> int \<Rightarrow> string \<Rightarrow> cycleEnv list \<Rightarrow> world \<Rightarrow> unit outcome" where
  "mainLoop ParseMessage icmpInterval pingHost [] s = Return () s"
| "mainLoop ParseMessage icmpInterval pingHost (env # envs) s =
     (case cycle ParseMessage icmpInterval pingHost env s of
        Return u s \<Rightarrow> mainLoop ParseMessage icmpInterval pingHost envs s
      | Exit s \<Rightarrow> Exit s
      | Panic s \<Rightarrow> Panic s)"

subsection \<open>The prober (older generation)\<close>

text \<open>
  The older \<^verbatim>\<open>main\<close> keeps the sequence number in \<^verbatim>\<open>icmpBody.Seq\<close>, advances it before it
  marshals the request, and reads replies in the labelled loop \<^verbatim>\<open>readLoop\<close> until one
  matches or the ticker of the attempt has fired. Its event has the flag \<^verbatim>\<open>dropped\<close>.
\<close>

record packetUpdate_older =
  dropped :: bool
  seqNumber_older :: int
  rttStart_older :: int
  rttStop_older :: int

record pinger =
  icmpBody :: Echo
  conn :: packetConn
  rbuf :: "byte list"
  updates :: "packetUpdate_older list"
  sent :: "(Message \<times> string) list"

text \<open>
  One pass of \<^verbatim>\<open>readLoop\<close> has the clock reading for the read deadline, the results of the
  two socket calls, and whether the \<^verbatim>\<open>select\<close> after a reply that did not match finds a
  tick waiting.
\<close>

record readStep =
  readNow :: int
  reads :: recvEnv
  tickerFired :: bool

datatype readExit = BreakReadLoop | ContinuePingLoop | ExitProcess | IndexPanic | StillReading

text \<open>
  \<^verbatim>\<open>readLoop\<close>, run on the passes the environment provides; \<open>StillReading\<close> when they are
  used up before the loop has ended.
\<close>

fun readLoop ::
  "(byte list \<Rightarrow> error + Message) \<Rightarrow> int \<Rightarrow> string \<Rightarrow> readStep list \<Rightarrow> pinger
     \<Rightarrow> readExit \<times> pinger" where
  "readLoop ParseMessage icmpInterval pingHost [] s = (StillReading, s)"
| "readLoop ParseMessage icmpInterval pingHost (step # steps) s =
     (case setReadDeadlineErr (reads step) of
        Some err \<Rightarrow> (ExitProcess, s)
      | None \<Rightarrow>
          (case ReadFrom (reads step)
                  ((conn s)\<lparr> readDeadline := Some (readNow step + icmpInterval) \<rparr>) (rbuf s) of
             (Inl err, c, b) \<Rightarrow>
               (let s = s\<lparr> conn := c, rbuf := b \<rparr>
                in if tickerFired step
                   then (ContinuePingLoop,
                         s\<lparr> updates := updates s @
                              [\<lparr> dropped = True, seqNumber_older = Seq (icmpBody s),
                                 rttStart_older = 0, rttStop_older = 0 \<rparr>] \<rparr>)
                   else readLoop ParseMessage icmpInterval pingHost steps s)
           | (Inr (numBytesReceived, addr), c, b) \<Rightarrow>
               if length b < 8 then (IndexPanic, s\<lparr> conn := c, rbuf := b \<rparr>)
               else
                 (let receivedMessage = ParseMessage b;
                      rxSeqNum = rxSeqNumOf b;
                      s = s\<lparr> conn := c, rbuf := flushBuf b numBytesReceived \<rparr>
                  in if (case receivedMessage of
                           Inl receivedMessageError \<Rightarrow> False
                         | Inr m \<Rightarrow> Type m = ICMPTypeEchoReply) \<and>
                        addr = pingHost \<and>
                        Seq (icmpBody s) = rxSeqNum
                     then (BreakReadLoop, s)
                     else if tickerFired step
                     then (ContinuePingLoop,
                           s\<lparr> updates := updates s @
                                [\<lparr> dropped = True, seqNumber_older = Seq (icmpBody s),
                                   rttStart_older = 0, rttStop_older = 0 \<rparr>] \<rparr>)
                     else readLoop ParseMessage icmpInterval pingHost steps s)))"

text \<open>One iteration of \<^verbatim>\<open>pingLoop\<close>.\<close>

record pingEnv =
  writeNow :: int
  rttStartNow :: int
  rttStopNow :: int
  writing :: sendEnv
  passes :: "readStep list"

datatype iteration = NextIteration pinger | Exited pinger | Panicked pinger | Blocked pinger

definition nextSeq :: "Echo \<Rightarrow> Echo" where
  "nextSeq body = (if Seq body + 1 = 65536 then body\<lparr> Seq := 0 \<rparr>
                   else body\<lparr> Seq := Seq body + 1 \<rparr>)"

definition pingLoop ::
  "(byte list \<Rightarrow> error + Message) \<Rightarrow> int \<Rightarrow> string \<Rightarrow> pingEnv \<Rightarrow> pinger \<Rightarrow> iteration" where
  "pingLoop ParseMessage icmpInterval pingHost env s =
     (let s = s\<lparr> icmpBody := nextSeq (icmpBody s) \<rparr>;
          icmpMessage = \<lparr> Type = ICMPTypeEcho, Code = 0, Body = icmpBody s \<rparr>
      in case marshalErr (writing env) of
           Some err \<Rightarrow> Exited s
         | None \<Rightarrow>
             (case setWriteDeadlineErr (writing env) of
                Some err \<Rightarrow> Exited s
              | None \<Rightarrow>
                  (let s = s\<lparr> conn := (conn s)\<lparr> writeDeadline := Some (writeNow env + icmpInterval) \<rparr> \<rparr>
                   in case writeToErr (writing env) of
                        Some err \<Rightarrow> NextIteration s
                      | None \<Rightarrow>
                          (case readLoop ParseMessage icmpInterval pingHost (passes env)
                                  (s\<lparr> sent := sent s @ [(icmpMessage, pingHost)] \<rparr>) of
                             (BreakReadLoop, s) \<Rightarrow>
                               NextIteration
                                 (s\<lparr> updates := updates s @
                                       [\<lparr> dropped = False, seqNumber_older = Seq (icmpBody s),
                                          rttStart_older = rttStartNow env,
                                          rttStop_older = rttStopNow env \<rparr>] \<rparr>)
                           | (ContinuePingLoop, s) \<Rightarrow> NextIteration s
                           | (ExitProcess, s) \<Rightarrow> Exited s
                           | (IndexPanic, s) \<Rightarrow> Panicked s
                           | (StillReading, s) \<Rightarrow> Blocked s))))"

subsection \<open>Sample inputs\<close>

text \<open>
  A parser for the concrete runs below: it fails on fewer than four bytes and otherwise
  reads the type and the code from the first two bytes and, for an echo message, the
  sequence number from the last two bytes of the header.
\<close>

definition headerParser :: "byte list \<Rightarrow> error + Message" where
  "headerParser b =
     (if length b < 4 then Inl ErrOther
      else Inr \<lparr> Type = uint (b ! 0), Code = uint (b ! 1),
                 Body = \<lparr> Seq = (if length b < 8 then 0 else rxSeqNumOf b) \<rparr> \<rparr>)"

text \<open>An echo reply with the given two bytes of sequence number, from the given address.\<close>

definition echoReply :: "byte \<Rightarrow> byte \<Rightarrow> string \<Rightarrow> datagram" where
  "echoReply hi lo addr = \<lparr> payload = [0, 0, 0, 0, 0, 0, hi, lo], source = addr \<rparr>"

definition noSendErr :: sendEnv where
  "noSendErr = \<lparr> marshalErr = None, setWriteDeadlineErr = None, writeToErr = None \<rparr>"

definition arriving :: "datagram list \<Rightarrow> recvEnv" where
  "arriving dgs = \<lparr> setReadDeadlineErr = None, readFromErr = None, arrivals = dgs \<rparr>"

definition delivered :: "int \<Rightarrow> packetUpdate" where
  "delivered rtt = \<lparr> received = True, seqNumber = 0, rttStart = 0, rttStop = rtt \<rparr>"

definition lost :: packetUpdate where
  "lost = \<lparr> received = False, seqNumber = 0, rttStart = 0, rttStop = 0 \<rparr>"

text \<open>The state in which \<^verbatim>\<open>main\<close> enters its loop: \<^verbatim>\<open>seq\<close> is 0, the buffer has 1500 zeros.\<close>

definition startWorld :: world where
  "startWorld = \<lparr> seq = 0, con = ListenPacket, buf = replicate 1500 0, updateChan = [],
     wire = [] \<rparr>"

definition startPinger :: pinger where
  "startPinger = \<lparr> icmpBody = \<lparr> Seq = 0 \<rparr>, conn = ListenPacket, rbuf = replicate 1500 0,
     updates = [], sent = [] \<rparr>"

text \<open>
  An iteration of the loop of \<^verbatim>\<open>main\<close> in which no call fails and the given datagrams
  reach the socket before the deadline.
\<close>

definition probe :: "datagram list \<Rightarrow> cycleEnv" where
  "probe dgs = \<lparr> ctxtNow = 0, start = 0, stop = 1, sending = noSendErr, listenErr = None,
     receiving = arriving dgs \<rparr>"

text \<open>
  A pass of the older \<^verbatim>\<open>readLoop\<close> during which the given datagrams reach the socket, and
  an iteration of the older \<^verbatim>\<open>pingLoop\<close> with the given passes.
\<close>

definition pass :: "datagram list \<Rightarrow> bool \<Rightarrow> readStep" where
  "pass dgs fired = \<lparr> readNow = 0, reads = arriving dgs, tickerFired = fired \<rparr>"

definition ping :: "readStep list \<Rightarrow> pingEnv" where
  "ping ps = \<lparr> writeNow = 0, rttStartNow = 0, rttStopNow = 1, writing = noSendErr,
     passes = ps \<rparr>"

text \<open>
  The state after the first request of each generation has been written, with an interval
  of 1000: the current generation has sent 0 and holds 1 in \<^verbatim>\<open>seq\<close>, the older one has sent
  1 and holds 1 in \<^verbatim>\<open>icmpBody.Seq\<close>.
\<close>

definition afterFirstSend :: world where
  "afterFirstSend = startWorld\<lparr> seq := 1, con := ListenPacket\<lparr> writeDeadline := Some 1000 \<rparr>,
     wire := [(\<lparr> Type = ICMPTypeEcho, Code = 0, Body = \<lparr> Seq = 0 \<rparr> \<rparr>, ''1.0.0.1:0'')] \<rparr>"

definition readingFirst :: pinger where
  "readingFirst = startPinger\<lparr> icmpBody := \<lparr> Seq = 1 \<rparr>,
     conn := ListenPacket\<lparr> writeDeadline := Some 1000 \<rparr>,
     sent := [(\<lparr> Type = ICMPTypeEcho, Code = 0, Body = \<lparr> Seq = 1 \<rparr> \<rparr>, ''1.0.0.1:0'')] \<rparr>"

text \<open>
  An iteration of each generation in which \<^verbatim>\<open>WriteTo\<close> fails: the current one goes on to
  \<^verbatim>\<open>receivePing\<close>, the older one to the next iteration.
\<close>

definition failedWrite :: cycleEnv where
  "failedWrite = (probe [])\<lparr> sending := noSendErr\<lparr> writeToErr := Some ErrOther \<rparr> \<rparr>"

definition failedPing :: pingEnv where
  "failedPing = (ping [])\<lparr> writing := noSendErr\<lparr> writeToErr := Some ErrOther \<rparr> \<rparr>"

subsection \<open>Observations on runs\<close>

text \<open>The state a call or an iteration ended in, however it ended.\<close>

fun worldOf :: "'r outcome \<Rightarrow> world" where
  "worldOf (Return r s) = s"
| "worldOf (Exit s) = s"
| "worldOf (Panic s) = s"

text \<open>What a call returned, if it returned.\<close>

fun returned :: "'r outcome \<Rightarrow> 'r option" where
  "returned (Return r s) = Some r"
| "returned (Exit s) = None"
| "returned (Panic s) = None"

fun pingerOf :: "iteration \<Rightarrow> pinger" where
  "pingerOf (NextIteration s) = s"
| "pingerOf (Exited s) = s"
| "pingerOf (Panicked s) = s"
| "pingerOf (Blocked s) = s"

text \<open>The sequence numbers of the requests written to the network, oldest first.\<close>

definition seqsOf :: "(Message \<times> string) list \<Rightarrow> int list" where
  "seqsOf ms = map (\<lambda>m. Seq (Body (fst m))) ms"

text \<open>Neither \<^verbatim>\<open>SetWriteDeadline\<close> nor \<^verbatim>\<open>WriteTo\<close> fails.\<close>

definition writeOk :: "sendEnv \<Rightarrow> bool" where
  "writeOk env = (setWriteDeadlineErr env = None \<and> writeToErr env = None)"

text \<open>
  The events among the choices of the aggregator's \<^verbatim>\<open>select\<close>, and the number a gauge
  shows.
\<close>

fun updatesOf :: "selected list \<Rightarrow> packetUpdate list" where
  "updatesOf [] = []"
| "updatesOf (Update u # rest) = u # updatesOf rest"
| "updatesOf (Tick # rest) = updatesOf rest"

fun valueOf :: "float64 \<Rightarrow> rat" where
  "valueOf (Finite a) = a"
| "valueOf PosInf = 0"
| "valueOf NegInf = 0"
| "valueOf NaN = 0"

text \<open>
  The \<^verbatim>\<open>for\<close> loop labelled \<^verbatim>\<open>pingLoop\<close> of the older generation, run for as many
  iterations as there are environments.
\<close>

fun pingLoops ::
  "(byte list \<Rightarrow> error + Message) \<Rightarrow> int \<Rightarrow> string \<Rightarrow> pingEnv list \<Rightarrow> pinger \<Rightarrow> iteration" where
  "pingLoops ParseMessage icmpInterval pingHost [] s = NextIteration s"
| "pingLoops ParseMessage icmpInterval pingHost (env # envs) s =
     (case pingLoop ParseMessage icmpInterval pingHost env s of
        NextIteration s \<Rightarrow> pingLoops ParseMessage icmpInterval pingHost envs s
      | Exited s \<Rightarrow> Exited s
      | Panicked s \<Rightarrow> Panicked s
      | Blocked s \<Rightarrow> Blocked s)"

section \<open>Properties of the aggregator\<close>


lemma onTick_resets: "snd (onTick w) = startWindow"
  by (simp add: onTick_def startWindow_def Let_def)

lemma onTick_older_resets: "snd (onTick_older w) = startWindow"
  by (simp add: onTick_older_def startWindow_def Let_def)

lemma lost_keeps_rtt:
  "\<not> received u \<Longrightarrow>
     rttMin (onUpdate w u) = rttMin w \<and> rttAvg (onUpdate w u) = rttAvg w \<and>
     rttAvgCnt (onUpdate w u) = rttAvgCnt w \<and> rttMax (onUpdate w u) = rttMax w"
  by (simp add: onUpdate_def Let_def)

lemma all_lost_keeps_rtt:
  "\<forall>u \<in> set us. \<not> received u \<Longrightarrow>
     rttMin (snd (aggregator w (map Update us))) = rttMin w \<and>
     rttAvg (snd (aggregator w (map Update us))) = rttAvg w \<and>
     rttMax (snd (aggregator w (map Update us))) = rttMax w"
  by (induction us arbitrary: w) (simp_all add: lost_keeps_rtt)

lemma msecFl_0: "msecFl 0 = Finite 0"
  by (simp add: msecFl_def float64_of_def quo_def)

lemma msecFl_MaxInt64: "msecFl MaxInt64 = Finite (9232595408891629 / 1000)"
  by (simp add: msecFl_def float64_of_def quo_def MaxInt64_def Microsecond_def Millisecond_def)






text \<open>
  C4, at the window in which nothing was consumed: the loss gauge is set to
  \<^verbatim>\<open>float64(0) / float64(0)\<close>, which is NaN. This holds for the first tick, for a tick that
  follows another tick, and in the older generation.
\<close>

theorem empty_window_loss_is_NaN:
  "map packetLossPercentage (fst (aggregator startWindow [Tick])) = [NaN] \<and>
   map packetLossPercentage (fst (aggregator startWindow [Update lost, Tick, Tick]))
     = [Finite 1, NaN] \<and>
   packetLossPercentage (fst (onTick_older startWindow)) = NaN"
  by (simp add: startWindow_def onTick_def onTick_older_def onUpdate_def lost_def
      float64_of_def Let_def)

text \<open>
  C5 as stated fails: after two lost packets and no reply, the tick sets the gauge of the
  minimum round trip time to 0.
\<close>

theorem all_loss_window_min_counterexample:
  "map roundTripMin (fst (aggregator startWindow [Update lost, Update lost, Tick])) = [Finite 0]"
  by (simp add: startWindow_def onTick_def onUpdate_def lost_def Let_def msecFl_0)

text \<open>
  C5, amended. In a window in which no packet was received \<^verbatim>\<open>rttMin\<close> still has its start
  value, the largest \<^verbatim>\<open>int64\<close>. The tick of the current generation replaces that value by 0
  and sets the gauge of the minimum to 0. The tick of the older generation has no such
  guard and sets the gauge to the conversion of the start value, which is not 0.
\<close>

theorem no_reply_window_min:
  assumes "\<forall>u \<in> set us. \<not> received u"
  shows "rttMin (snd (aggregator startWindow (map Update us))) = MaxInt64 \<and>
         roundTripMin (fst (onTick (snd (aggregator startWindow (map Update us))))) = Finite 0 \<and>
         roundTripMin (fst (onTick_older (snd (aggregator startWindow (map Update us)))))
           = msecFl MaxInt64 \<and>
         msecFl MaxInt64 \<noteq> Finite 0"
  using all_lost_keeps_rtt [OF assms, of startWindow]
  by (simp add: onTick_def onTick_older_def Let_def msecFl_0 msecFl_MaxInt64)
     (simp add: startWindow_def)

theorem no_reply_window_min_witness:
  "\<not> received lost \<and>
   rttMin (snd (aggregator startWindow (map Update [lost, lost]))) = MaxInt64 \<and>
   roundTripMin (fst (onTick (snd (aggregator startWindow (map Update [lost, lost])))))
     = Finite 0"
  using no_reply_window_min [of "[lost, lost]"] by (simp add: lost_def)

text \<open>
  C6, at the three events of 10 ms, 20 ms and 30 ms consumed from the empty window: the
  locals hold a mean of exactly 20 ms, a minimum of 10 ms and a maximum of 30 ms, and the
  tick that follows sets the gauges \<^verbatim>\<open>rtt_min_msec\<close>, \<^verbatim>\<open>rtt_avg_msec\<close> and \<^verbatim>\<open>rtt_max_msec\<close> to
  10.01, 20.02 and 30.03: the conversion adds the milliseconds, divided by 1000, to the
  microseconds divided by 1000.
\<close>

theorem three_samples_at_flush:
  "aggregator startWindow
     [Update (delivered (10 * Millisecond)), Update (delivered (20 * Millisecond)),
      Update (delivered (30 * Millisecond))] =
     ([], \<lparr> droppedPacketsCounter = 0, totalPacketsCounter = 3, rttMin = 10 * Millisecond,
            rttAvg = 20 * Millisecond, rttAvgCnt = 3, rttMax = 30 * Millisecond \<rparr>) \<and>
   fst (aggregator startWindow
     [Update (delivered (10 * Millisecond)), Update (delivered (20 * Millisecond)),
      Update (delivered (30 * Millisecond)), Tick]) =
     [\<lparr> droppedPackets = Finite 0, totalPackets = Finite 3, packetLossPercentage = Finite 0,
        roundTripMin = Finite (1001 / 100), roundTripAvg = Finite (2002 / 100),
        roundTripMax = Finite (3003 / 100) \<rparr>]"
  by (simp add: startWindow_def onUpdate_def onTick_def delivered_def Sub_def MaxInt64_def
      int64_def quo_def Let_def Millisecond_def Microsecond_def msecFl_def float64_of_def)


section \<open>Properties of the prober\<close>

subsection \<open>What the calls change\<close>

lemma flushBuf_eq: "n \<le> length b \<Longrightarrow> flushBuf b n = replicate n 0 @ drop n b"
  unfolding flushBuf_def
proof (induction n)
  case 0
  then show ?case by simp
next
  case (Suc n)
  then have "fold (\<lambda>pos buf. buf[pos := 0]) [0..<n] b = replicate n 0 @ drop n b"
    by simp
  moreover have "(replicate n 0 @ drop n b)[n := 0] = replicate (Suc n) 0 @ drop (Suc n) b"
    using Suc.prems
    by (simp add: list_update_append replicate_append_same upd_conv_take_nth_drop
        flip: Cons_nth_drop_Suc)
  ultimately show ?case by simp
qed

lemma length_flushBuf: "length (flushBuf b n) = length b"
proof -
  have "length (fold (\<lambda>pos buf. buf[pos := 0]) ps b) = length b" for ps :: "nat list"
    by (induction ps arbitrary: b) simp_all
  then show ?thesis by (simp add: flushBuf_def)
qed

lemma ReadFrom_length: "ReadFrom env c b = (r, c', b') \<Longrightarrow> length b' = length b"
  by (auto simp: ReadFrom_def Let_def split: option.splits list.splits)

lemma sendPing_Return:
  assumes "sendPing env (Some d) t s = Return err s'"
  shows "seq s' = (if seq s = 65536 then 0 else seq s) + 1"
    and "updateChan s' = updateChan s"
    and "buf s' = buf s"
    and "marshalErr env = None"
    and "err = None \<Longrightarrow>
           wire s' = wire s @
             [(\<lparr> Type = ICMPTypeEcho, Code = 0, Body = \<lparr> Seq = seq s' - 1 \<rparr> \<rparr>, t)]"
    and "err \<noteq> None \<Longrightarrow> wire s' = wire s"
    and "writeOk env \<Longrightarrow> err = None"
  using assms
  by (auto simp: sendPing_def deferred_def writeOk_def Let_def split: option.splits if_splits)

lemma sendPing_returns:
  assumes "marshalErr env = None"
  shows "\<exists>err s'. sendPing env (Some d) t s = Return err s' \<and> buf s' = buf s"
  using assms by (simp add: sendPing_def deferred_def Let_def split: option.splits)

lemma sendPing_exits:
  assumes "marshalErr env \<noteq> None"
  shows "sendPing env (Some d) t s = Exit (if seq s = 65536 then s\<lparr> seq := 0 \<rparr> else s)"
  using assms by (auto simp: sendPing_def Let_def)

lemma receivePing_Return:
  assumes "receivePing P env c t s = Return r s'"
  shows "seq s' = seq s" and "wire s' = wire s" and "updateChan s' = updateChan s"
  using assms
  by (auto simp: receivePing_def Let_def split: option.splits if_splits prod.splits sum.splits)

lemma receivePing_returns:
  assumes "8 \<le> length (buf s)"
  shows "\<exists>r s'. receivePing P env (Some d) t s = Return r s' \<and> length (buf s') = length (buf s)"
proof (cases "setReadDeadlineErr env")
  case (Some err)
  then show ?thesis by (auto simp: receivePing_def)
next
  case None
  obtain r c b where rf: "ReadFrom env ((con s)\<lparr> readDeadline := Some d \<rparr>) (buf s) = (r, c, b)"
    by (cases "ReadFrom env ((con s)\<lparr> readDeadline := Some d \<rparr>) (buf s)")
  from ReadFrom_length [OF rf] have len: "length b = length (buf s)" .
  show ?thesis
  proof (cases r)
    case (Inl err)
    with None rf len show ?thesis by (auto simp: receivePing_def)
  next
    case (Inr nb)
    obtain n addr where "nb = (n, addr)" by (cases nb)
    with None rf len Inr assms show ?thesis
      by (auto simp: receivePing_def Let_def length_flushBuf)
  qed
qed

lemma cycle_Return:
  assumes "cycle P i h env s = Return u s'"
  shows "seq s' = (if seq s = 65536 then 0 else seq s) + 1"
    and "\<exists>e. updateChan s' = updateChan s @ [e]"
    and "writeOk (sending env) \<Longrightarrow>
           seqsOf (wire s') = seqsOf (wire s) @ [if seq s = 65536 then 0 else seq s]"
proof -
  let ?ctxt = "Some (ctxtNow env + i)"
  obtain err s1 where s1: "sendPing (sending env) ?ctxt h s = Return err s1"
    using assms by (cases "sendPing (sending env) ?ctxt h s") (simp_all add: cycle_def)
  note sp = sendPing_Return [OF s1]
  define reopened where "reopened = (case err of
      None \<Rightarrow> Some s1
    | Some e \<Rightarrow> if isDeadline e
        then (case listenErr env of
                None \<Rightarrow> Some (s1\<lparr> con := ListenPacket \<rparr>)
              | Some e' \<Rightarrow> None)
        else Some s1)"
  have c: "cycle P i h env s =
     (case reopened of
        None \<Rightarrow> Exit s1
      | Some s \<Rightarrow>
          (case receivePing P (receiving env) ?ctxt h s of
             Exit s \<Rightarrow> Exit s
           | Panic s \<Rightarrow> Panic s
           | Return (received', err') s \<Rightarrow>
               Return ()
                 (s\<lparr> updateChan := updateChan s @
                       [\<lparr> received = received', seqNumber = seq s,
                          rttStart = start env, rttStop = stop env \<rparr>] \<rparr>)))"
    by (simp add: cycle_def s1 reopened_def)
  obtain s2 where r: "reopened = Some s2"
    using assms unfolding c by (cases reopened) simp_all
  have s2: "seq s2 = seq s1" "wire s2 = wire s1" "updateChan s2 = updateChan s1"
    using r by (auto simp: reopened_def split: option.splits if_splits)
  obtain rc s3 where s3: "receivePing P (receiving env) ?ctxt h s2 = Return rc s3"
    using assms unfolding c r
    by (cases "receivePing P (receiving env) ?ctxt h s2") simp_all
  have s'eq: "s' = s3\<lparr> updateChan := updateChan s3 @
       [\<lparr> received = fst rc, seqNumber = seq s3, rttStart = start env,
          rttStop = stop env \<rparr>] \<rparr>"
    using assms unfolding c r by (simp add: s3 split_beta)
  note rp = receivePing_Return [OF s3]
  show "seq s' = (if seq s = 65536 then 0 else seq s) + 1"
    using sp(1) s2(1) rp(1) by (simp add: s'eq)
  show "\<exists>e. updateChan s' = updateChan s @ [e]"
    using sp(2) s2(3) rp(3) by (simp add: s'eq)
  show "seqsOf (wire s') = seqsOf (wire s) @ [if seq s = 65536 then 0 else seq s]"
    if "writeOk (sending env)"
  proof -
    have "err = None" using sp(7) [OF that] .
    then have "wire s1 = wire s @
        [(\<lparr> Type = ICMPTypeEcho, Code = 0, Body = \<lparr> Seq = seq s1 - 1 \<rparr> \<rparr>, h)]"
      using sp(5) by simp
    then show ?thesis using sp(1) s2(2) rp(2) by (simp add: s'eq seqsOf_def)
  qed
qed

lemma cycle_returns:
  assumes "marshalErr (sending env) = None" and "listenErr env = None"
    and "8 \<le> length (buf s)"
  shows "\<exists>s'. cycle P i h env s = Return () s' \<and> length (buf s') = length (buf s)"
proof -
  let ?ctxt = "ctxtNow env + i"
  from sendPing_returns [OF assms(1)] obtain err s1
    where s1: "sendPing (sending env) (Some ?ctxt) h s = Return err s1" "buf s1 = buf s"
    by blast
  define s2 where "s2 = (case err of
      None \<Rightarrow> s1
    | Some e \<Rightarrow> if isDeadline e then s1\<lparr> con := ListenPacket \<rparr> else s1)"
  have b2: "buf s2 = buf s" using s1(2) by (simp add: s2_def split: option.splits)
  then have "8 \<le> length (buf s2)" using assms(3) by simp
  from receivePing_returns [OF this] obtain r s3
    where s3: "receivePing P (receiving env) (Some ?ctxt) h s2 = Return r s3"
      "length (buf s3) = length (buf s2)"
    by blast
  have "cycle P i h env s = Return ()
      (s3\<lparr> updateChan := updateChan s3 @
         [\<lparr> received = fst r, seqNumber = seq s3, rttStart = start env,
            rttStop = stop env \<rparr>] \<rparr>)"
    using s1(1) s3(1) assms(2)
    by (cases err) (auto simp: cycle_def s2_def split_beta split: if_splits)
  then show ?thesis using s3(2) b2 by simp
qed

text \<open>
  The loop of \<^verbatim>\<open>main\<close> completes every iteration in which marshalling and, where it is
  tried, reopening the socket succeed; the buffer of 1500 bytes rules out the panic.
\<close>

lemma mainLoop_returns:
  assumes "\<forall>env \<in> set envs. marshalErr (sending env) = None \<and> listenErr env = None"
    and "8 \<le> length (buf s)"
  shows "\<exists>s'. mainLoop P i h envs s = Return () s'"
  using assms
proof (induction envs arbitrary: s)
  case Nil
  then show ?case by simp
next
  case (Cons env envs)
  then have "marshalErr (sending env) = None" "listenErr env = None" by simp_all
  from cycle_returns [OF this Cons.prems(2)] obtain s1
    where s1: "cycle P i h env s = Return () s1" "length (buf s1) = length (buf s)"
    by blast
  have "8 \<le> length (buf s1)" using s1(2) Cons.prems(2) by simp
  from Cons.IH [OF _ this] Cons.prems(1)
  obtain s' where "mainLoop P i h envs s1 = Return () s'"
    by auto
  then show ?case by (simp add: s1(1))
qed

lemma mainLoop_events:
  assumes "mainLoop P i h envs s = Return u s'"
  shows "\<exists>es. updateChan s' = updateChan s @ es \<and> length es = length envs"
  using assms
proof (induction envs arbitrary: s)
  case Nil
  then show ?case by simp
next
  case (Cons env envs)
  then obtain u1 s1 where c: "cycle P i h env s = Return u1 s1"
    and m: "mainLoop P i h envs s1 = Return u s'"
    by (auto split: outcome.splits)
  from cycle_Return(2) [OF c] obtain e where e: "updateChan s1 = updateChan s @ [e]"
    by blast
  from Cons.IH [OF m] obtain es
    where es: "updateChan s' = updateChan s1 @ es" "length es = length envs"
    by blast
  have "updateChan s' = updateChan s @ (e # es) \<and> length (e # es) = length (env # envs)"
    using e es by simp
  then show ?case by blast
qed

lemma mainLoop_seqs:
  assumes "mainLoop P i h envs s = Return u s'"
    and "\<forall>env \<in> set envs. writeOk (sending env)"
    and "0 \<le> seq s" and "seq s \<le> 65536"
  shows "seqsOf (wire s') =
           seqsOf (wire s) @ map (\<lambda>k. (seq s + int k) mod 65536) [0..<length envs]"
  using assms
proof (induction envs arbitrary: s)
  case Nil
  then show ?case by simp
next
  case (Cons env envs)
  then obtain u1 s1 where c: "cycle P i h env s = Return u1 s1"
    and m: "mainLoop P i h envs s1 = Return u s'"
    by (auto split: outcome.splits)
  from Cons.prems have ok: "writeOk (sending env)" "\<forall>env \<in> set envs. writeOk (sending env)"
    by simp_all
  have first: "(if seq s = 65536 then 0 else seq s) = seq s mod 65536"
    using Cons.prems(3,4) by auto
  have s1: "seq s1 = seq s mod 65536 + 1"
    using cycle_Return(1) [OF c] first by simp
  have bounds: "0 \<le> seq s mod 65536" "seq s mod 65536 < 65536"
    by simp_all
  have rng: "0 \<le> seq s1" "seq s1 \<le> 65536"
    using s1 bounds by linarith+
  have shift: "(seq s1 + int k) mod 65536 = (seq s + int (Suc k)) mod 65536" for k
  proof -
    have "seq s1 + int k = seq s mod 65536 + int (Suc k)" using s1 by simp
    then show ?thesis by (simp only: mod_add_left_eq)
  qed
  have "seqsOf (wire s') =
      seqsOf (wire s1) @ map (\<lambda>k. (seq s1 + int k) mod 65536) [0..<length envs]"
    using Cons.IH [OF m ok(2) rng] .
  also have "seqsOf (wire s1) = seqsOf (wire s) @ [seq s mod 65536]"
    using cycle_Return(3) [OF c ok(1)] first by simp
  finally show ?case
    by (simp add: shift map_upt_Suc del: upt_Suc)
qed

text \<open>The counter \<^verbatim>\<open>seq\<close> never leaves the range from 0 to 65536.\<close>

lemma cycle_seq_range:
  assumes "cycle P i h env s = Return u s'" and "0 \<le> seq s" and "seq s \<le> 65536"
  shows "1 \<le> seq s' \<and> seq s' \<le> 65536"
  using cycle_Return(1) [OF assms(1)] assms(2,3) by (simp split: if_splits)

lemma mainLoop_seq_range:
  assumes "mainLoop P i h envs s = Return u s'" and "0 \<le> seq s" and "seq s \<le> 65536"
  shows "0 \<le> seq s' \<and> seq s' \<le> 65536"
  using assms
proof (induction envs arbitrary: s)
  case Nil
  then show ?case by simp
next
  case (Cons env envs)
  then obtain u1 s1 where c: "cycle P i h env s = Return u1 s1"
    and m: "mainLoop P i h envs s1 = Return u s'"
    by (auto split: outcome.splits)
  from cycle_seq_range [OF c Cons.prems(2,3)] have "0 \<le> seq s1" "seq s1 \<le> 65536"
    by simp_all
  from Cons.IH [OF m this] show ?case .
qed

subsection \<open>What the older loops change\<close>

lemma readLoop_keeps:
  "readLoop P i h steps s = (e, s') \<Longrightarrow> icmpBody s' = icmpBody s \<and> sent s' = sent s"
proof (induction steps arbitrary: s)
  case Nil
  then show ?case by simp
next
  case (Cons step steps)
  show ?case
  proof (cases "setReadDeadlineErr (reads step)")
    case (Some err)
    with Cons.prems show ?thesis by simp
  next
    case None
    obtain r c b where rf: "ReadFrom (reads step)
        ((conn s)\<lparr> readDeadline := Some (readNow step + i) \<rparr>) (rbuf s) = (r, c, b)"
      by (cases "ReadFrom (reads step)
            ((conn s)\<lparr> readDeadline := Some (readNow step + i) \<rparr>) (rbuf s)")
    show ?thesis
    proof (cases r)
      case (Inl err)
      show ?thesis
      proof (cases "tickerFired step")
        case True
        with Cons.prems None rf Inl show ?thesis by (auto simp: Let_def)
      next
        case False
        with Cons.prems None rf Inl
        have "readLoop P i h steps (s\<lparr> conn := c, rbuf := b \<rparr>) = (e, s')"
          by (simp add: Let_def)
        from Cons.IH [OF this] show ?thesis by simp
      qed
    next
      case (Inr nb)
      obtain n addr where nb: "nb = (n, addr)" by (cases nb)
      show ?thesis
      proof (cases "length b < 8")
        case True
        with Cons.prems None rf Inr nb show ?thesis by auto
      next
        case long: False
        let ?s = "s\<lparr> conn := c, rbuf := flushBuf b n \<rparr>"
        let ?acc = "(case P b of Inl x \<Rightarrow> False | Inr m \<Rightarrow> Type m = ICMPTypeEchoReply) \<and>
                    addr = h \<and> Seq (icmpBody s) = rxSeqNumOf b"
        have eq: "readLoop P i h (step # steps) s =
            (if ?acc then (BreakReadLoop, ?s)
             else if tickerFired step
             then (ContinuePingLoop,
                   ?s\<lparr> updates := updates ?s @
                        [\<lparr> dropped = True, seqNumber_older = Seq (icmpBody ?s),
                           rttStart_older = 0, rttStop_older = 0 \<rparr>] \<rparr>)
             else readLoop P i h steps ?s)"
          using None rf Inr nb long by (simp add: Let_def)
        show ?thesis
        proof (cases ?acc)
          case True
          with Cons.prems eq show ?thesis by auto
        next
          case nacc: False
          show ?thesis
          proof (cases "tickerFired step")
            case True
            with Cons.prems eq nacc show ?thesis by auto
          next
            case False
            with Cons.prems eq nacc have "readLoop P i h steps ?s = (e, s')" by simp
            from Cons.IH [OF this] show ?thesis by simp
          qed
        qed
      qed
    qed
  qed
qed

lemma pingLoop_Next:
  assumes "pingLoop P i h env s = NextIteration s'"
  shows "icmpBody s' = nextSeq (icmpBody s)"
    and "writeToErr (writing env) = None \<Longrightarrow>
           seqsOf (sent s') = seqsOf (sent s) @ [Seq (nextSeq (icmpBody s))]"
proof -
  let ?s0 = "s\<lparr> icmpBody := nextSeq (icmpBody s) \<rparr>"
  let ?s1 = "?s0\<lparr> conn := (conn ?s0)\<lparr> writeDeadline := Some (writeNow env + i) \<rparr> \<rparr>"
  let ?msg = "\<lparr> Type = ICMPTypeEcho, Code = 0, Body = icmpBody ?s0 \<rparr>"
  let ?s2 = "?s1\<lparr> sent := sent ?s1 @ [(?msg, h)] \<rparr>"
  from assms have m: "marshalErr (writing env) = None"
    and w: "setWriteDeadlineErr (writing env) = None"
    by (auto simp: pingLoop_def Let_def split: option.splits)
  show "icmpBody s' = nextSeq (icmpBody s)"
  proof (cases "writeToErr (writing env)")
    case (Some err)
    with assms m w show ?thesis by (auto simp: pingLoop_def Let_def)
  next
    case None
    obtain e s3 where rl: "readLoop P i h (passes env) ?s2 = (e, s3)"
      by (cases "readLoop P i h (passes env) ?s2")
    from readLoop_keeps [OF rl] have k: "icmpBody s3 = nextSeq (icmpBody s)" by simp
    from assms m w None rl k show ?thesis
      by (cases e) (auto simp: pingLoop_def Let_def)
  qed
  show "seqsOf (sent s') = seqsOf (sent s) @ [Seq (nextSeq (icmpBody s))]"
    if None: "writeToErr (writing env) = None"
  proof -
    obtain e s3 where rl: "readLoop P i h (passes env) ?s2 = (e, s3)"
      by (cases "readLoop P i h (passes env) ?s2")
    from readLoop_keeps [OF rl] have k: "sent s3 = sent s @ [(?msg, h)]" by simp
    from assms m w None rl k show ?thesis
      by (cases e) (auto simp: pingLoop_def Let_def seqsOf_def)
  qed
qed

lemma pingLoops_seqs:
  assumes "pingLoops P i h envs s = NextIteration s'"
    and "\<forall>env \<in> set envs. writeToErr (writing env) = None"
    and "0 \<le> Seq (icmpBody s)" and "Seq (icmpBody s) < 65536"
  shows "seqsOf (sent s') = seqsOf (sent s) @
           map (\<lambda>k. (Seq (icmpBody s) + 1 + int k) mod 65536) [0..<length envs]"
  using assms
proof (induction envs arbitrary: s)
  case Nil
  then show ?case by simp
next
  case (Cons env envs)
  then obtain s1 where c: "pingLoop P i h env s = NextIteration s1"
    and m: "pingLoops P i h envs s1 = NextIteration s'"
    by (auto split: iteration.splits)
  from Cons.prems have ok: "writeToErr (writing env) = None"
    "\<forall>env \<in> set envs. writeToErr (writing env) = None"
    by simp_all
  have first: "Seq (nextSeq (icmpBody s)) = (Seq (icmpBody s) + 1) mod 65536"
    using Cons.prems(3,4) by (auto simp: nextSeq_def)
  have s1: "Seq (icmpBody s1) = (Seq (icmpBody s) + 1) mod 65536"
    using pingLoop_Next(1) [OF c] first by simp
  have rng: "0 \<le> Seq (icmpBody s1)" "Seq (icmpBody s1) < 65536"
    unfolding s1 by simp_all
  have shift: "(Seq (icmpBody s1) + 1 + int k) mod 65536
      = (Seq (icmpBody s) + 1 + int (Suc k)) mod 65536" for k
  proof -
    have "Seq (icmpBody s1) + 1 + int k = (Seq (icmpBody s) + 1) mod 65536 + int (Suc k)"
      using s1 by simp
    also have "\<dots> mod 65536 = (Seq (icmpBody s) + 1 + int (Suc k)) mod 65536"
      by (simp only: mod_add_left_eq)
    finally show ?thesis .
  qed
  have "seqsOf (sent s') = seqsOf (sent s1) @
          map (\<lambda>k. (Seq (icmpBody s1) + 1 + int k) mod 65536) [0..<length envs]"
    using Cons.IH [OF m ok(2) rng] .
  also have "seqsOf (sent s1) = seqsOf (sent s) @ [(Seq (icmpBody s) + 1) mod 65536]"
    using pingLoop_Next(2) [OF c ok(1)] first by simp
  finally show ?case
    by (simp add: shift map_upt_Suc del: upt_Suc)
qed

text \<open>An iteration of the older loop to which no reply comes ends with the tick.\<close>

lemma pingLoop_silent:
  assumes "pending (conn s) = []"
  shows "\<exists>s'. pingLoop P i h (ping [pass [] True]) s = NextIteration s' \<and>
           pending (conn s') = []"
  using assms
  by (simp add: pingLoop_def ping_def pass_def noSendErr_def arriving_def ReadFrom_def Let_def)

lemma pingLoops_silent:
  assumes "pending (conn s) = []"
  shows "\<exists>s'. pingLoops P i h (replicate n (ping [pass [] True])) s = NextIteration s'"
  using assms
proof (induction n arbitrary: s)
  case 0
  then show ?case by simp
next
  case (Suc n)
  from pingLoop_silent [OF Suc.prems] obtain s1
    where s1: "pingLoop P i h (ping [pass [] True]) s = NextIteration s1"
      "pending (conn s1) = []"
    by blast
  from Suc.IH [OF s1(2)] show ?case by (simp add: s1(1))
qed

lemma mod_distinct:
  fixes j k :: nat
  assumes "j < k" "k < j + 65536"
  shows "(a + int j) mod 65536 \<noteq> (a + int k) mod 65536"
proof
  assume "(a + int j) mod 65536 = (a + int k) mod 65536"
  then have "(65536::int) dvd (a + int j) - (a + int k)"
    by (simp only: mod_eq_dvd_iff)
  moreover have "(a + int j) - (a + int k) = - int (k - j)"
    using assms(1) by simp
  ultimately have d: "(65536::int) dvd int (k - j)"
    by (simp only: dvd_minus_iff)
  have "0 < int (k - j)" "int (k - j) < 65536"
    using assms by simp_all
  with d show False using zdvd_not_zless by blast
qed

subsection \<open>The numbers on the wire, with writes that fail\<close>

lemma sendPing_written:
  assumes "sendPing env (Some d) t s = Return err s'"
  shows "err = None \<longleftrightarrow> writeOk env"
  using assms
  by (auto simp: sendPing_def deferred_def writeOk_def Let_def split: option.splits if_splits)

lemma cycle_wire:
  assumes "cycle P i h env s = Return u s'"
  shows "seqsOf (wire s') = seqsOf (wire s) @
           (if writeOk (sending env) then [if seq s = 65536 then 0 else seq s] else [])"
proof (cases "writeOk (sending env)")
  case True
  then show ?thesis using cycle_Return(3) [OF assms] by simp
next
  case False
  let ?ctxt = "Some (ctxtNow env + i)"
  obtain err s1 where s1: "sendPing (sending env) ?ctxt h s = Return err s1"
    using assms by (cases "sendPing (sending env) ?ctxt h s") (simp_all add: cycle_def)
  have e: "err \<noteq> None" using sendPing_written [OF s1] False by simp
  then have w1: "wire s1 = wire s" using sendPing_Return(6) [OF s1] by simp
  define s2 where "s2 = (if isDeadline (the err) then s1\<lparr> con := ListenPacket \<rparr> else s1)"
  have w2: "wire s2 = wire s1" by (simp add: s2_def)
  have "\<exists>rc s3. receivePing P (receiving env) ?ctxt h s2 = Return rc s3 \<and> wire s' = wire s3"
    using assms s1 e
    by (auto simp: cycle_def s2_def split: option.splits if_splits outcome.splits)
  then obtain rc s3 where s3: "receivePing P (receiving env) ?ctxt h s2 = Return rc s3"
    and w': "wire s' = wire s3" by blast
  from receivePing_Return(2) [OF s3] w' w2 w1 False show ?thesis by simp
qed

lemma mainLoop_wire:
  assumes "mainLoop P i h envs s = Return u s'"
    and "0 \<le> seq s" and "seq s \<le> 65536"
  shows "seqsOf (wire s') = seqsOf (wire s) @
           map (\<lambda>(k, env). (seq s + int k - int n) mod 65536)
             (filter (\<lambda>(k, env). writeOk (sending env)) (enumerate n envs))"
  using assms
proof (induction envs arbitrary: s n)
  case Nil
  then show ?case by simp
next
  case (Cons env envs)
  then obtain u1 s1 where c: "cycle P i h env s = Return u1 s1"
    and m: "mainLoop P i h envs s1 = Return u s'"
    by (auto split: outcome.splits)
  have first: "(if seq s = 65536 then 0 else seq s) = seq s mod 65536"
    using Cons.prems(2,3) by auto
  have s1: "seq s1 = seq s mod 65536 + 1"
    using cycle_Return(1) [OF c] first by simp
  have bounds: "0 \<le> seq s mod 65536" "seq s mod 65536 < 65536"
    by simp_all
  have rng: "0 \<le> seq s1" "seq s1 \<le> 65536"
    using s1 bounds by linarith+
  have shift: "(seq s1 + int k - int (Suc n)) mod 65536 = (seq s + int k - int n) mod 65536" for k
  proof -
    have "seq s1 + int k - int (Suc n) = seq s mod 65536 + (int k - int n)" using s1 by simp
    moreover have "seq s + int k - int n = seq s + (int k - int n)" by simp
    ultimately show ?thesis by (simp only: mod_add_left_eq)
  qed
  have "seqsOf (wire s') = seqsOf (wire s1) @
      map (\<lambda>(k, env). (seq s1 + int k - int (Suc n)) mod 65536)
        (filter (\<lambda>(k, env). writeOk (sending env)) (enumerate (Suc n) envs))"
    using Cons.IH [OF m rng] .
  also have "(\<lambda>(k, env :: cycleEnv). (seq s1 + int k - int (Suc n)) mod 65536)
      = (\<lambda>(k, env). (seq s + int k - int n) mod 65536)"
    by (intro ext) (simp only: split_beta shift)
  also have "seqsOf (wire s1) = seqsOf (wire s) @
      (if writeOk (sending env) then [seq s mod 65536] else [])"
    using cycle_wire [OF c] first by simp
  finally show ?case by simp
qed

lemma pingLoop_sent:
  assumes "pingLoop P i h env s = NextIteration s'"
  shows "seqsOf (sent s') = seqsOf (sent s) @
           (if writeToErr (writing env) = None then [Seq (nextSeq (icmpBody s))] else [])"
proof (cases "writeToErr (writing env)")
  case None
  then show ?thesis using pingLoop_Next(2) [OF assms] by simp
next
  case (Some err)
  from assms have m: "marshalErr (writing env) = None"
    and w: "setWriteDeadlineErr (writing env) = None"
    by (auto simp: pingLoop_def Let_def split: option.splits)
  with assms Some show ?thesis by (auto simp: pingLoop_def Let_def)
qed

lemma pingLoops_sent:
  assumes "pingLoops P i h envs s = NextIteration s'"
    and "0 \<le> Seq (icmpBody s)" and "Seq (icmpBody s) < 65536"
  shows "seqsOf (sent s') = seqsOf (sent s) @
           map (\<lambda>(k, env). (Seq (icmpBody s) + 1 + int k - int n) mod 65536)
             (filter (\<lambda>(k, env). writeToErr (writing env) = None) (enumerate n envs))"
  using assms
proof (induction envs arbitrary: s n)
  case Nil
  then show ?case by simp
next
  case (Cons env envs)
  then obtain s1 where c: "pingLoop P i h env s = NextIteration s1"
    and m: "pingLoops P i h envs s1 = NextIteration s'"
    by (auto split: iteration.splits)
  have first: "Seq (nextSeq (icmpBody s)) = (Seq (icmpBody s) + 1) mod 65536"
    using Cons.prems(2,3) by (auto simp: nextSeq_def)
  have s1: "Seq (icmpBody s1) = (Seq (icmpBody s) + 1) mod 65536"
    using pingLoop_Next(1) [OF c] first by simp
  have rng: "0 \<le> Seq (icmpBody s1)" "Seq (icmpBody s1) < 65536"
    unfolding s1 by simp_all
  have shift: "(Seq (icmpBody s1) + 1 + int k - int (Suc n)) mod 65536
      = (Seq (icmpBody s) + 1 + int k - int n) mod 65536" for k
  proof -
    have "Seq (icmpBody s1) + 1 + int k - int (Suc n)
        = (Seq (icmpBody s) + 1) mod 65536 + (int k - int n)"
      using s1 by simp
    moreover have "Seq (icmpBody s) + 1 + int k - int n
        = (Seq (icmpBody s) + 1) + (int k - int n)" by simp
    ultimately show ?thesis by (simp only: mod_add_left_eq)
  qed
  have "seqsOf (sent s') = seqsOf (sent s1) @
      map (\<lambda>(k, env). (Seq (icmpBody s1) + 1 + int k - int (Suc n)) mod 65536)
        (filter (\<lambda>(k, env). writeToErr (writing env) = None) (enumerate (Suc n) envs))"
    using Cons.IH [OF m rng] .
  also have "(\<lambda>(k, env :: pingEnv). (Seq (icmpBody s1) + 1 + int k - int (Suc n)) mod 65536)
      = (\<lambda>(k, env). (Seq (icmpBody s) + 1 + int k - int n) mod 65536)"
    by (intro ext) (simp only: split_beta shift)
  also have "seqsOf (sent s1) = seqsOf (sent s) @
      (if writeToErr (writing env) = None then [(Seq (icmpBody s) + 1) mod 65536] else [])"
    using pingLoop_sent [OF c] first by simp
  finally show ?case by simp
qed

lemma map_number:
  "map (\<lambda>(k, x). f k) ys = map f (map fst ys)"
  by (induction ys) auto

lemma distinct_numbers:
  assumes "length xs \<le> 65536"
  shows "distinct (map (\<lambda>(k, x). (a + int k) mod 65536) (filter Q (enumerate 0 xs)))"
proof -
  let ?ks = "map fst (filter Q (enumerate 0 xs))"
  have d: "distinct ?ks"
    by (rule distinct_map_filter) (simp add: map_fst_enumerate)
  have s: "set ?ks \<subseteq> {0..<length xs}"
    by (auto simp: in_set_enumerate_eq)
  have inj: "inj_on (\<lambda>k. (a + int k) mod 65536) (set ?ks)"
  proof (rule inj_onI)
    fix j k
    assume j: "j \<in> set ?ks" and k: "k \<in> set ?ks"
      and eq: "(a + int j) mod 65536 = (a + int k) mod 65536"
    from j k s assms have b: "j < 65536" "k < 65536" by auto
    show "j = k"
    proof (rule ccontr)
      assume "j \<noteq> k"
      then consider "j < k" | "k < j" by linarith
      then show False
      proof cases
        case 1
        with b have "k < j + 65536" by simp
        from mod_distinct [OF 1 this, of a] eq show False by simp
      next
        case 2
        with b have "j < k + 65536" by simp
        from mod_distinct [OF 2 this, of a] eq show False by simp
      qed
    qed
  qed
  have "distinct (map (\<lambda>k. (a + int k) mod 65536) ?ks)"
    using d inj by (simp only: distinct_map)
  then show ?thesis by (simp only: map_number)
qed

lemma all_written:
  assumes "\<forall>x \<in> set xs. Q x"
  shows "map (\<lambda>(k, x). f k) (filter (\<lambda>(k, x). Q x) (enumerate 0 xs)) = map f [0..<length xs]"
proof -
  have "filter (\<lambda>(k, x). Q x) (enumerate 0 xs) = enumerate 0 xs"
    using assms by (auto simp: filter_id_conv enumerate_eq_zip dest: set_zip_rightD)
  moreover have "map fst (enumerate 0 xs) = [0..<length xs]"
    by (simp add: map_fst_enumerate)
  ultimately show ?thesis by (simp only: map_number)
qed

subsection \<open>Evaluating sample runs\<close>

lemmas run_simps = cycle_def sendPing_def receivePing_def ReadFrom_def deferred_def
  probe_def noSendErr_def arriving_def echoReply_def headerParser_def startWorld_def
  ListenPacket_def rxSeqNumOf_def ICMPTypeEcho_def ICMPTypeEchoReply_def flushBuf_eq
  seqsOf_def Let_def

lemmas older_simps = pingLoop_def nextSeq_def ReadFrom_def ping_def pass_def
  noSendErr_def arriving_def echoReply_def headerParser_def startPinger_def
  ListenPacket_def rxSeqNumOf_def ICMPTypeEcho_def ICMPTypeEchoReply_def flushBuf_eq
  seqsOf_def Let_def

lemmas sample_simps = run_simps older_simps afterFirstSend_def readingFirst_def

subsection \<open>The deadline guard and the sequence counter\<close>

text \<open>
  C9. With a context that has no deadline, \<^verbatim>\<open>sendPing\<close> returns \<^verbatim>\<open>os.ErrNoDeadline\<close> and
  \<^verbatim>\<open>receivePing\<close> returns \<^verbatim>\<open>(false, os.ErrNoDeadline)\<close>, and the state they return in is the
  state they were called in: \<^verbatim>\<open>seq\<close>, the socket with its deadlines and its unread
  datagrams, the buffer, the channel and the requests on the network are unchanged.
\<close>

theorem no_deadline_no_effect:
  "sendPing env None target s = Return (Some ErrNoDeadline) s \<and>
   receivePing ParseMessage renv None target s = Return (False, Some ErrNoDeadline) s"
  by (simp add: sendPing_def receivePing_def)



text \<open>
  C7 as stated fails in the older generation: its first request carries 1, its 65536th
  request carries 0, and its 65537th request carries 1 again, not 0. (The run is one in
  which no reply ever comes; every iteration writes its request.) It also fails, in
  either generation, once a write has failed: the iteration has used up its number, and
  the next request on the wire carries 2 after 0.
\<close>

theorem older_request_65537_counterexample:
  "length (sent (pingerOf (pingLoops headerParser 1000 ''1.0.0.1:0''
       (replicate 65537 (ping [pass [] True])) startPinger))) = 65537 \<and>
   seqsOf (sent (pingerOf (pingLoops headerParser 1000 ''1.0.0.1:0''
       (replicate 65537 (ping [pass [] True])) startPinger))) ! 0 = 1 \<and>
   seqsOf (sent (pingerOf (pingLoops headerParser 1000 ''1.0.0.1:0''
       (replicate 65537 (ping [pass [] True])) startPinger))) ! 65535 = 0 \<and>
   seqsOf (sent (pingerOf (pingLoops headerParser 1000 ''1.0.0.1:0''
       (replicate 65537 (ping [pass [] True])) startPinger))) ! 65536 = 1 \<and>
   seqsOf (wire (worldOf (mainLoop headerParser 1000 ''1.0.0.1:0''
       [probe [], failedWrite, probe []] startWorld))) = [0, 2]"
proof -
  let ?run = "pingLoops headerParser 1000 ''1.0.0.1:0''
    (replicate 65537 (ping [pass [] True])) startPinger"
  have "pending (conn startPinger) = []"
    by (simp add: startPinger_def ListenPacket_def)
  from pingLoops_silent [OF this] obtain s' where s': "?run = NextIteration s'"
    by blast
  have ok: "\<forall>env \<in> set (replicate 65537 (ping [pass [] True])). writeToErr (writing env) = None"
    by (simp add: ping_def noSendErr_def)
  have b: "0 \<le> Seq (icmpBody startPinger)" "Seq (icmpBody startPinger) < 65536"
    by (simp_all add: startPinger_def)
  have sq: "seqsOf (sent s') = map (\<lambda>k. (1 + int k) mod 65536) [0..<65537]"
    using pingLoops_seqs [OF s' ok b] by (simp add: startPinger_def seqsOf_def)
  have "length (seqsOf (sent s')) = 65537" unfolding sq by simp
  then have len: "length (sent s') = 65537" by (simp add: seqsOf_def)
  have n0: "seqsOf (sent s') ! 0 = 1" unfolding sq by simp
  have n1: "seqsOf (sent s') ! 65535 = 0" unfolding sq by simp
  have n2: "seqsOf (sent s') ! 65536 = 1" unfolding sq by simp
  have fw: "seqsOf (wire (worldOf (mainLoop headerParser 1000 ''1.0.0.1:0''
       [probe [], failedWrite, probe []] startWorld))) = [0, 2]"
    by (simp add: sample_simps failedWrite_def)
  show ?thesis using len n0 n1 n2 fw by (simp add: s')
qed

text \<open>
  C7, amended. Every iteration of the loop takes the successor modulo 65536 of the number
  of the iteration before (65535 is followed by 0), whether its request is then written or
  not: iteration \<open>k\<close> (counted from 0) of the current generation builds its request with
  \<open>k mod 65536\<close>, that of the older generation with \<open>(k + 1) mod 65536\<close>, and the requests on
  the wire are those of the iterations in which the write succeeded. So every transmitted
  number lies in \<open>0..65535\<close>, and no number is transmitted twice in the first 65536
  iterations. In a run in which every write succeeds, each request carries the successor
  modulo 65536 of the one before, two requests fewer than 65536 apart never carry the same
  number, and the 65537th request carries 0 again in the current generation and 1 in the
  older one.
\<close>

theorem sequence_numbers_wrap:
  assumes "mainLoop P i h envs startWorld = Return u s'"
    and "pingLoops P i h penvs startPinger = NextIteration p'"
  shows "seqsOf (wire s') =
           map (\<lambda>(k, env). int k mod 65536)
             (filter (\<lambda>(k, env). writeOk (sending env)) (enumerate 0 envs)) \<and>
         seqsOf (sent p') =
           map (\<lambda>(k, env). (int k + 1) mod 65536)
             (filter (\<lambda>(k, env). writeToErr (writing env) = None) (enumerate 0 penvs)) \<and>
         (\<forall>x \<in> set (seqsOf (wire s')) \<union> set (seqsOf (sent p')). 0 \<le> x \<and> x \<le> 65535) \<and>
         (length envs \<le> 65536 \<longrightarrow> distinct (seqsOf (wire s'))) \<and>
         (length penvs \<le> 65536 \<longrightarrow> distinct (seqsOf (sent p'))) \<and>
         ((\<forall>env \<in> set envs. writeOk (sending env)) \<longrightarrow>
            seqsOf (wire s') = map (\<lambda>k. int k mod 65536) [0..<length envs] \<and>
            (\<forall>k. Suc k < length envs \<longrightarrow>
               seqsOf (wire s') ! Suc k = (seqsOf (wire s') ! k + 1) mod 65536) \<and>
            (\<forall>j k. j < k \<and> k < j + 65536 \<and> k < length envs \<longrightarrow>
               seqsOf (wire s') ! j \<noteq> seqsOf (wire s') ! k) \<and>
            (65536 < length envs \<longrightarrow> seqsOf (wire s') ! 65536 = 0)) \<and>
         ((\<forall>env \<in> set penvs. writeToErr (writing env) = None) \<longrightarrow>
            seqsOf (sent p') = map (\<lambda>k. (int k + 1) mod 65536) [0..<length penvs] \<and>
            (\<forall>k. Suc k < length penvs \<longrightarrow>
               seqsOf (sent p') ! Suc k = (seqsOf (sent p') ! k + 1) mod 65536) \<and>
            (\<forall>j k. j < k \<and> k < j + 65536 \<and> k < length penvs \<longrightarrow>
               seqsOf (sent p') ! j \<noteq> seqsOf (sent p') ! k) \<and>
            (65536 < length penvs \<longrightarrow> seqsOf (sent p') ! 65536 = 1))"
proof -
  have cur: "seqsOf (wire s') =
      map (\<lambda>(k, env). (0 + int k) mod 65536)
        (filter (\<lambda>(k, env). writeOk (sending env)) (enumerate 0 envs))"
    using mainLoop_wire [OF assms(1), of 0] by (simp add: startWorld_def seqsOf_def)
  have old: "seqsOf (sent p') =
      map (\<lambda>(k, env). (1 + int k) mod 65536)
        (filter (\<lambda>(k, env). writeToErr (writing env) = None) (enumerate 0 penvs))"
    using pingLoops_sent [OF assms(2), of 0] by (simp add: startPinger_def seqsOf_def)
  have rng: "\<forall>x \<in> set (seqsOf (wire s')) \<union> set (seqsOf (sent p')). 0 \<le> x \<and> x \<le> 65535"
    unfolding cur old by auto
  have d_cur: "length envs \<le> 65536 \<longrightarrow> distinct (seqsOf (wire s'))"
    unfolding cur using distinct_numbers [of envs 0] by blast
  have d_old: "length penvs \<le> 65536 \<longrightarrow> distinct (seqsOf (sent p'))"
    unfolding old using distinct_numbers [of penvs 1] by blast
  have step: "(int (Suc k) + a) mod 65536 = ((int k + a) mod 65536 + 1) mod 65536"
    for k :: nat and a :: int
  proof -
    have "int (Suc k) + a = (int k + a) + 1" by simp
    then show ?thesis by (simp only: mod_add_left_eq)
  qed
  have all_cur: "seqsOf (wire s') = map (\<lambda>k. int k mod 65536) [0..<length envs] \<and>
      (\<forall>k. Suc k < length envs \<longrightarrow>
         seqsOf (wire s') ! Suc k = (seqsOf (wire s') ! k + 1) mod 65536) \<and>
      (\<forall>j k. j < k \<and> k < j + 65536 \<and> k < length envs \<longrightarrow>
         seqsOf (wire s') ! j \<noteq> seqsOf (wire s') ! k) \<and>
      (65536 < length envs \<longrightarrow> seqsOf (wire s') ! 65536 = 0)"
    if ok: "\<forall>env \<in> set envs. writeOk (sending env)"
  proof -
    have c: "seqsOf (wire s') = map (\<lambda>k. int k mod 65536) [0..<length envs]"
      using all_written [of envs "\<lambda>env. writeOk (sending env)" "\<lambda>k. (0 + int k) mod 65536"] ok
      unfolding cur by simp
    have "\<forall>k. Suc k < length envs \<longrightarrow>
        seqsOf (wire s') ! Suc k = (seqsOf (wire s') ! k + 1) mod 65536"
      unfolding c using step [of _ 0] by (simp del: of_nat_Suc)
    moreover have "\<forall>j k. j < k \<and> k < j + 65536 \<and> k < length envs \<longrightarrow>
        seqsOf (wire s') ! j \<noteq> seqsOf (wire s') ! k"
      unfolding c using mod_distinct [of _ _ 0] by simp
    moreover have "65536 < length envs \<longrightarrow> seqsOf (wire s') ! 65536 = 0"
      unfolding c by simp
    ultimately show ?thesis using c by blast
  qed
  have all_old: "seqsOf (sent p') = map (\<lambda>k. (int k + 1) mod 65536) [0..<length penvs] \<and>
      (\<forall>k. Suc k < length penvs \<longrightarrow>
         seqsOf (sent p') ! Suc k = (seqsOf (sent p') ! k + 1) mod 65536) \<and>
      (\<forall>j k. j < k \<and> k < j + 65536 \<and> k < length penvs \<longrightarrow>
         seqsOf (sent p') ! j \<noteq> seqsOf (sent p') ! k) \<and>
      (65536 < length penvs \<longrightarrow> seqsOf (sent p') ! 65536 = 1)"
    if ok: "\<forall>env \<in> set penvs. writeToErr (writing env) = None"
  proof -
    have c: "seqsOf (sent p') = map (\<lambda>k. (int k + 1) mod 65536) [0..<length penvs]"
      using all_written [of penvs "\<lambda>env. writeToErr (writing env) = None"
          "\<lambda>k. (1 + int k) mod 65536"] ok
      unfolding old by (simp add: add.commute)
    have "\<forall>k. Suc k < length penvs \<longrightarrow>
        seqsOf (sent p') ! Suc k = (seqsOf (sent p') ! k + 1) mod 65536"
      unfolding c using step [of _ 1] by (simp del: of_nat_Suc)
    moreover have "\<forall>j k. j < k \<and> k < j + 65536 \<and> k < length penvs \<longrightarrow>
        seqsOf (sent p') ! j \<noteq> seqsOf (sent p') ! k"
      unfolding c using mod_distinct [of _ _ 1] by (simp add: add.commute)
    moreover have "65536 < length penvs \<longrightarrow> seqsOf (sent p') ! 65536 = 1"
      unfolding c by simp
    ultimately show ?thesis using c by blast
  qed
  have cur': "seqsOf (wire s') =
      map (\<lambda>(k, env). int k mod 65536)
        (filter (\<lambda>(k, env). writeOk (sending env)) (enumerate 0 envs))"
    using cur by simp
  have old': "seqsOf (sent p') =
      map (\<lambda>(k, env). (int k + 1) mod 65536)
        (filter (\<lambda>(k, env). writeToErr (writing env) = None) (enumerate 0 penvs))"
    using old by (simp add: add.commute)
  have i_cur: "(\<forall>env \<in> set envs. writeOk (sending env)) \<longrightarrow>
      seqsOf (wire s') = map (\<lambda>k. int k mod 65536) [0..<length envs] \<and>
      (\<forall>k. Suc k < length envs \<longrightarrow>
         seqsOf (wire s') ! Suc k = (seqsOf (wire s') ! k + 1) mod 65536) \<and>
      (\<forall>j k. j < k \<and> k < j + 65536 \<and> k < length envs \<longrightarrow>
         seqsOf (wire s') ! j \<noteq> seqsOf (wire s') ! k) \<and>
      (65536 < length envs \<longrightarrow> seqsOf (wire s') ! 65536 = 0)"
    using all_cur by (rule impI)
  have i_old: "(\<forall>env \<in> set penvs. writeToErr (writing env) = None) \<longrightarrow>
      seqsOf (sent p') = map (\<lambda>k. (int k + 1) mod 65536) [0..<length penvs] \<and>
      (\<forall>k. Suc k < length penvs \<longrightarrow>
         seqsOf (sent p') ! Suc k = (seqsOf (sent p') ! k + 1) mod 65536) \<and>
      (\<forall>j k. j < k \<and> k < j + 65536 \<and> k < length penvs \<longrightarrow>
         seqsOf (sent p') ! j \<noteq> seqsOf (sent p') ! k) \<and>
      (65536 < length penvs \<longrightarrow> seqsOf (sent p') ! 65536 = 1)"
    using all_old by (rule impI)
  from cur' old' rng d_cur d_old i_cur i_old show ?thesis
    by (intro conjI)
qed

theorem sequence_numbers_wrap_witness:
  "mainLoop headerParser 1000 ''1.0.0.1:0'' [probe [], failedWrite, probe []] startWorld
     = Return ()
         (worldOf (mainLoop headerParser 1000 ''1.0.0.1:0'' [probe [], failedWrite, probe []]
            startWorld)) \<and>
   pingLoops headerParser 1000 ''1.0.0.1:0'' [ping [pass [] True], failedPing, ping [pass [] True]]
       startPinger
     = NextIteration (pingerOf (pingLoops headerParser 1000 ''1.0.0.1:0''
         [ping [pass [] True], failedPing, ping [pass [] True]] startPinger)) \<and>
   seqsOf (wire (worldOf (mainLoop headerParser 1000 ''1.0.0.1:0''
       [probe [], failedWrite, probe []] startWorld))) = [0, 2] \<and>
   seqsOf (sent (pingerOf (pingLoops headerParser 1000 ''1.0.0.1:0''
       [ping [pass [] True], failedPing, ping [pass [] True]] startPinger))) = [1, 3]"
proof -
  let ?envs = "[probe [], failedWrite, probe []]"
  let ?penvs = "[ping [pass [] True], failedPing, ping [pass [] True]]"
  let ?run = "mainLoop headerParser 1000 ''1.0.0.1:0'' ?envs startWorld"
  let ?older = "pingLoops headerParser 1000 ''1.0.0.1:0'' ?penvs startPinger"
  have h1: "?run = Return () (worldOf ?run)"
    by (simp add: sample_simps failedWrite_def)
  have h2: "?older = NextIteration (pingerOf ?older)"
    by (simp add: sample_simps failedPing_def)
  note t = sequence_numbers_wrap [OF h1 h2]
  have w: "writeOk (sending (probe []))" "\<not> writeOk (sending failedWrite)"
    "writeToErr (writing (ping [pass [] True])) = None" "writeToErr (writing failedPing) \<noteq> None"
    by (simp_all add: probe_def ping_def failedWrite_def failedPing_def noSendErr_def writeOk_def)
  have c: "seqsOf (wire (worldOf ?run)) = [0, 2]"
    using conjunct1 [OF t] by (simp add: enumerate_eq_zip w)
  have o: "seqsOf (sent (pingerOf ?older)) = [1, 3]"
    using conjunct1 [OF conjunct2 [OF t]] by (simp add: enumerate_eq_zip w)
  from h1 h2 c o show ?thesis by (intro conjI)
qed

subsection \<open>Correlating a reply with the request\<close>

text \<open>
  C1 as stated fails in \<^verbatim>\<open>receivePing\<close>, which adjusts the stored counter when it compares.
  After the first request (sequence number 0) the counter \<^verbatim>\<open>seq\<close> is 1; a reply that
  carries 1, the value of the counter, is refused, and a reply that carries 0, the
  counter less one, is accepted.
\<close>

theorem stored_counter_adjusted_counterexample:
  "seq afterFirstSend = 1 \<and> seqsOf (wire afterFirstSend) = [0] \<and>
   returned (receivePing headerParser (arriving [echoReply 0 1 ''1.0.0.1:0'']) (Some 1000)
     ''1.0.0.1:0'' afterFirstSend) = Some (False, None) \<and>
   returned (receivePing headerParser (arriving [echoReply 0 0 ''1.0.0.1:0'']) (Some 1000)
     ''1.0.0.1:0'' afterFirstSend) = Some (True, None)"
  by (simp add: sample_simps)

text \<open>
  C1, amended. A datagram read in the current attempt is accepted as the reply if and
  only if parsing succeeds, the message type is echo reply, the source address equals the
  target address, and the sequence number in the datagram equals the sequence number of
  the request written in this attempt. \<^verbatim>\<open>receivePing\<close> obtains that number at comparison
  time as \<^verbatim>\<open>seq - 1\<close>, since \<^verbatim>\<open>sendPing\<close> has incremented the counter after it built the
  request; the older \<^verbatim>\<open>readLoop\<close> compares with \<^verbatim>\<open>icmpBody.Seq\<close>, which the request written
  last carries, without adjustment.

  In the statement, \<open>b\<close> is the buffer after the read and \<open>addr\<close> the sender reported by
  \<^verbatim>\<open>ReadFrom\<close>; a buffer of at least 8 bytes (it has 1500) excludes the index panic.
\<close>

theorem reply_accepted_iff:
  assumes "sendPing senv (Some deadline) target s = Return None s1"
    and "setReadDeadlineErr renv = None"
    and "ReadFrom renv ((con s1)\<lparr> readDeadline := Some deadline \<rparr>) (buf s1)
           = (Inr (n, addr), c, b)"
    and "8 \<le> length b"
    and "sent p \<noteq> []" and "Body (fst (last (sent p))) = icmpBody p"
    and "setReadDeadlineErr (reads step) = None"
    and "ReadFrom (reads step) ((conn p)\<lparr> readDeadline := Some (readNow step + i) \<rparr>) (rbuf p)
           = (Inr (n', addr'), c', b')"
    and "8 \<le> length b'"
  shows "receivePing P renv (Some deadline) target s1 =
           Return ((\<exists>m. P b = Inr m \<and> Type m = ICMPTypeEchoReply) \<and> addr = target \<and>
                   rxSeqNumOf b = Seq (Body (fst (last (wire s1)))), None)
                  (s1\<lparr> con := c, buf := flushBuf b n \<rparr>) \<and>
         Seq (Body (fst (last (wire s1)))) = seq s1 - 1 \<and>
         (fst (readLoop P i target [step] p) = BreakReadLoop \<longleftrightarrow>
            (\<exists>m. P b' = Inr m \<and> Type m = ICMPTypeEchoReply) \<and> addr' = target \<and>
            rxSeqNumOf b' = Seq (Body (fst (last (sent p)))))"
proof -
  have w: "wire s1 = wire s @
      [(\<lparr> Type = ICMPTypeEcho, Code = 0, Body = \<lparr> Seq = seq s1 - 1 \<rparr> \<rparr>, target)]"
    using sendPing_Return(5) [OF assms(1)] by simp
  then have tx: "Seq (Body (fst (last (wire s1)))) = seq s1 - 1"
    by simp
  have parse: "(case P x of Inl e \<Rightarrow> False | Inr m \<Rightarrow> Type m = ICMPTypeEchoReply)
      = (\<exists>m. P x = Inr m \<and> Type m = ICMPTypeEchoReply)" for x
    by (cases "P x") simp_all
  have cur: "receivePing P renv (Some deadline) target s1 =
           Return ((\<exists>m. P b = Inr m \<and> Type m = ICMPTypeEchoReply) \<and> addr = target \<and>
                   rxSeqNumOf b = Seq (Body (fst (last (wire s1)))), None)
                  (s1\<lparr> con := c, buf := flushBuf b n \<rparr>)"
    using assms(2,3,4) by (auto simp: receivePing_def Let_def parse tx)
  have old: "fst (readLoop P i target [step] p) = BreakReadLoop \<longleftrightarrow>
            (\<exists>m. P b' = Inr m \<and> Type m = ICMPTypeEchoReply) \<and> addr' = target \<and>
            rxSeqNumOf b' = Seq (Body (fst (last (sent p))))"
    using assms(6,7,8,9) by (auto simp: Let_def parse)
  from cur tx old show ?thesis
    by (intro conjI)
qed

theorem reply_accepted_iff_witness:
  "sendPing noSendErr (Some 1000) ''1.0.0.1:0'' startWorld = Return None afterFirstSend \<and>
   returned (receivePing headerParser (arriving [echoReply 0 0 ''1.0.0.1:0'']) (Some 1000)
     ''1.0.0.1:0'' afterFirstSend) = Some (True, None) \<and>
   pingerOf (pingLoop headerParser 1000 ''1.0.0.1:0'' (ping []) startPinger) = readingFirst \<and>
   fst (readLoop headerParser 1000 ''1.0.0.1:0'' [pass [echoReply 0 1 ''1.0.0.1:0''] False]
     readingFirst) = BreakReadLoop"
proof -
  let ?h = "''1.0.0.1:0''"
  let ?b = "payload (echoReply 0 0 ?h) @ replicate 1492 0"
  let ?b' = "payload (echoReply 0 1 ?h) @ replicate 1492 0"
  let ?c = "ListenPacket\<lparr> writeDeadline := Some 1000, readDeadline := Some 1000 \<rparr>"
  have h1: "sendPing noSendErr (Some 1000) ?h startWorld = Return None afterFirstSend"
    by (simp add: sample_simps)
  have h2: "setReadDeadlineErr (arriving [echoReply 0 0 ?h]) = None"
    by (simp add: arriving_def)
  have h3: "ReadFrom (arriving [echoReply 0 0 ?h])
      ((con afterFirstSend)\<lparr> readDeadline := Some 1000 \<rparr>) (buf afterFirstSend)
      = (Inr (8, ?h), ?c, ?b)"
    by (simp add: sample_simps)
  have h4: "8 \<le> length ?b"
    by (simp add: echoReply_def)
  have h5: "sent readingFirst \<noteq> []"
    by (simp add: readingFirst_def)
  have h6: "Body (fst (last (sent readingFirst))) = icmpBody readingFirst"
    by (simp add: readingFirst_def)
  have h7: "setReadDeadlineErr (reads (pass [echoReply 0 1 ?h] False)) = None"
    by (simp add: pass_def arriving_def)
  have h8: "ReadFrom (reads (pass [echoReply 0 1 ?h] False))
      ((conn readingFirst)\<lparr> readDeadline :=
          Some (readNow (pass [echoReply 0 1 ?h] False) + 1000) \<rparr>)
      (rbuf readingFirst) = (Inr (8, ?h), ?c, ?b')"
    by (simp add: sample_simps)
  have h9: "8 \<le> length ?b'"
    by (simp add: echoReply_def)
  have p: "pingerOf (pingLoop headerParser 1000 ?h (ping []) startPinger) = readingFirst"
    by (simp add: sample_simps)
  note t = reply_accepted_iff [OF h1 h2 h3 h4 h5 h6 h7 h8 h9, of headerParser]
  have m: "\<exists>m. headerParser ?b = Inr m \<and> Type m = ICMPTypeEchoReply"
    by (simp add: sample_simps)
  have m': "\<exists>m. headerParser ?b' = Inr m \<and> Type m = ICMPTypeEchoReply"
    by (simp add: sample_simps)
  have q: "rxSeqNumOf ?b = 0" "rxSeqNumOf ?b' = 1"
    by (simp_all add: sample_simps)
  show ?thesis
    using t h1 p m m' q by (simp add: afterFirstSend_def readingFirst_def)
qed

text \<open>
  C3, at a run of three probes. The reply to the first request comes after the deadline
  of its attempt; it is still unread when the second attempt starts, and the reply to the
  second request follows it within the deadline. \<^verbatim>\<open>receivePing\<close> reads one datagram per
  attempt, so the second attempt ends with the stale reply and is reported as not
  received, and so is the third, whose reply also came in time. The older \<^verbatim>\<open>readLoop\<close>, given
  a stale reply and then the right one, reads on and reports the attempt as not dropped.
\<close>

theorem stale_reply_ends_attempt:
  "seqsOf (wire (worldOf (mainLoop headerParser 1000 ''1.0.0.1:0''
     [probe [],
      probe [echoReply 0 0 ''1.0.0.1:0'', echoReply 0 1 ''1.0.0.1:0''],
      probe [echoReply 0 2 ''1.0.0.1:0'']] startWorld))) = [0, 1, 2] \<and>
   map received (updateChan (worldOf (mainLoop headerParser 1000 ''1.0.0.1:0''
     [probe [],
      probe [echoReply 0 0 ''1.0.0.1:0'', echoReply 0 1 ''1.0.0.1:0''],
      probe [echoReply 0 2 ''1.0.0.1:0'']] startWorld))) = [False, False, False] \<and>
   seqsOf (sent (pingerOf (pingLoops headerParser 1000 ''1.0.0.1:0''
     [ping [pass [] True],
      ping [pass [echoReply 0 1 ''1.0.0.1:0''] False, pass [echoReply 0 2 ''1.0.0.1:0''] False],
      ping [pass [echoReply 0 3 ''1.0.0.1:0''] False]] startPinger))) = [1, 2, 3] \<and>
   map dropped (updates (pingerOf (pingLoops headerParser 1000 ''1.0.0.1:0''
     [ping [pass [] True],
      ping [pass [echoReply 0 1 ''1.0.0.1:0''] False, pass [echoReply 0 2 ''1.0.0.1:0''] False],
      ping [pass [echoReply 0 3 ''1.0.0.1:0''] False]] startPinger))) = [True, False, False]"
  by (simp add: sample_simps)

subsection \<open>One event per cycle\<close>

lemma onUpdate_counters:
  "totalPacketsCounter (onUpdate w u) = totalPacketsCounter w + 1 \<and>
   droppedPacketsCounter (onUpdate w u)
     = droppedPacketsCounter w + (if received u then 0 else 1)"
  by (simp add: onUpdate_def Let_def)

lemma aggregator_counters:
  "totalPacketsCounter (snd (aggregator w (map Update us)))
     = totalPacketsCounter w + int (length us) \<and>
   droppedPacketsCounter (snd (aggregator w (map Update us)))
     = droppedPacketsCounter w + int (length (filter (\<lambda>u. \<not> received u) us))"
  by (induction us arbitrary: w) (simp_all add: onUpdate_counters)

lemma onTick_counters:
  "totalPackets (fst (onTick w)) = Finite (of_int (totalPacketsCounter w)) \<and>
   droppedPackets (fst (onTick w)) = Finite (of_int (droppedPacketsCounter w))"
  by (simp add: onTick_def Let_def float64_of_def)

text \<open>
  Ticks between the events lose and repeat nothing: the totals published so far and the
  count of the open window add up to the number of events consumed, and so do the
  dropped ones.
\<close>

lemma aggregator_conserves:
  "(\<Sum>g \<leftarrow> fst (aggregator w sel). valueOf (totalPackets g))
     + of_int (totalPacketsCounter (snd (aggregator w sel)))
     = of_int (totalPacketsCounter w) + of_nat (length (updatesOf sel)) \<and>
   (\<Sum>g \<leftarrow> fst (aggregator w sel). valueOf (droppedPackets g))
     + of_int (droppedPacketsCounter (snd (aggregator w sel)))
     = of_int (droppedPacketsCounter w)
       + of_nat (length (filter (\<lambda>u. \<not> received u) (updatesOf sel)))"
proof (induction sel arbitrary: w)
  case Nil
  show ?case by simp
next
  case (Cons x sel)
  show ?case
  proof (cases x)
    case (Update u)
    with Cons [of "onUpdate w u"] show ?thesis
      by (simp add: onUpdate_counters)
  next
    case Tick
    with Cons [of "snd (onTick w)"] show ?thesis
      by (simp add: split_beta onTick_counters onTick_resets startWindow_def)
  qed
qed

text \<open>
  C2. When the loop of \<^verbatim>\<open>main\<close> has completed \<open>N\<close> iterations, whatever was sent, received
  or failed in them, it has put exactly \<open>N\<close> events on the channel, one after the other
  behind those that were there. The aggregator, consuming these events from the empty
  window, counts \<open>N\<close> packets in \<^verbatim>\<open>totalPacketsCounter\<close> and the events that are not marked
  received in \<^verbatim>\<open>droppedPacketsCounter\<close>; the events marked received and the dropped ones
  add up to \<open>N\<close>. (The goroutine keeps no counter of received packets.)
\<close>

theorem event_accounting:
  assumes "mainLoop P i h envs s = Return u s'"
  shows "\<exists>es. updateChan s' = updateChan s @ es \<and> length es = length envs \<and>
           totalPacketsCounter (snd (aggregator startWindow (map Update es)))
             = int (length envs) \<and>
           droppedPacketsCounter (snd (aggregator startWindow (map Update es)))
             = int (length (filter (\<lambda>u. \<not> received u) es)) \<and>
           int (length (filter received es))
             + droppedPacketsCounter (snd (aggregator startWindow (map Update es)))
             = int (length envs)"
proof -
  from mainLoop_events [OF assms] obtain es
    where es: "updateChan s' = updateChan s @ es" "length es = length envs"
    by blast
  have t: "totalPacketsCounter (snd (aggregator startWindow (map Update es))) = int (length es)"
    and d: "droppedPacketsCounter (snd (aggregator startWindow (map Update es)))
             = int (length (filter (\<lambda>u. \<not> received u) es))"
    using aggregator_counters [of startWindow es] by (simp_all add: startWindow_def)
  have "length (filter received es) + length (filter (\<lambda>u. \<not> received u) es) = length es"
    by (rule sum_length_filter_compl)
  then have "int (length (filter received es))
      + int (length (filter (\<lambda>u. \<not> received u) es)) = int (length es)"
    by linarith
  with es t d show ?thesis by auto
qed

theorem event_accounting_witness:
  "mainLoop headerParser 1000 ''1.0.0.1:0''
     [probe [echoReply 0 0 ''1.0.0.1:0''], probe [], probe [echoReply 0 2 ''1.0.0.1:0'']]
     startWorld
   = Return () (worldOf (mainLoop headerParser 1000 ''1.0.0.1:0''
       [probe [echoReply 0 0 ''1.0.0.1:0''], probe [], probe [echoReply 0 2 ''1.0.0.1:0'']]
       startWorld)) \<and>
   map received (updateChan (worldOf (mainLoop headerParser 1000 ''1.0.0.1:0''
     [probe [echoReply 0 0 ''1.0.0.1:0''], probe [], probe [echoReply 0 2 ''1.0.0.1:0'']]
     startWorld))) = [True, False, True] \<and>
   aggregator startWindow (map Update (updateChan (worldOf (mainLoop headerParser 1000
     ''1.0.0.1:0''
     [probe [echoReply 0 0 ''1.0.0.1:0''], probe [], probe [echoReply 0 2 ''1.0.0.1:0'']]
     startWorld))))
     = ([], \<lparr> droppedPacketsCounter = 1, totalPacketsCounter = 3, rttMin = 1, rttAvg = 1,
              rttAvgCnt = 2, rttMax = 1 \<rparr>)"
  using event_accounting [of headerParser 1000 "''1.0.0.1:0''"
     "[probe [echoReply 0 0 ''1.0.0.1:0''], probe [], probe [echoReply 0 2 ''1.0.0.1:0'']]"
     startWorld "()"
     "worldOf (mainLoop headerParser 1000 ''1.0.0.1:0''
       [probe [echoReply 0 0 ''1.0.0.1:0''], probe [], probe [echoReply 0 2 ''1.0.0.1:0'']]
       startWorld)"]
  by (simp add: run_simps onUpdate_def startWindow_def Sub_def MaxInt64_def int64_def quo_def)

end
